theory Spec2Isabelle
  imports Main "HOL-Library.Word" "HOL-Library.Char_ord" "HOL-Library.List_Lexorder"
begin

section \<open>Single-decree Paxos (senutpal/quorum): proposer, acceptor, node dispatch, in-memory storage\<close>

text \<open>
  A shallow embedding of the Go sources. Go's \<^verbatim>\<open>int64\<close> is a 64-bit word read as two's
  complement (\<open>sint\<close>, \<open><s\<close>), so \<^verbatim>\<open>highestRound++\<close> wraps. Go's \<^verbatim>\<open>int\<close> counters of the
  quorum loops are bounded by \<^verbatim>\<open>quorumSize\<close> and cannot overflow; they are \<open>int\<close>.
  Byte slices are plain byte lists in the proposer and the messages (nothing proved about them
  depends on sharing); the in-memory storage, whose contract is about sharing, works on an
  explicit heap of backing arrays.
\<close>

type_synonym int64 = "64 word"
type_synonym byte = "8 word"
type_synonym bytes = "byte list"

subsection \<open>Proposal numbers\<close>

text \<open>
  Modelled from the spec: the struct \<^verbatim>\<open>ProposalNumber\<close> and its methods are only described in
  \<^verbatim>\<open>internal/paxos/proposal.go\<close> (fields \<^verbatim>\<open>Round int64\<close>, \<^verbatim>\<open>ProposerID string\<close>); the
  proposer and the storage use them.
\<close>

record ProposalNumber =
  Round :: int64
  ProposerID :: string

text \<open>Go's zero value \<^verbatim>\<open>ProposalNumber{}\<close>.\<close>

definition zeroProposal :: ProposalNumber where
  "zeroProposal = \<lparr>Round = 0, ProposerID = ''''\<rparr>"

text \<open>
  Modelled from the spec: \<^verbatim>\<open>Equal\<close>, \<^verbatim>\<open>IsZero\<close>, \<^verbatim>\<open>GreaterThan\<close> and \<^verbatim>\<open>LessThan\<close> are missing from
  the sources. Spec 3.1: the order is lexicographic, the round first, then the proposer id
  (Go compares strings byte by byte); the zero identifier has round 0 and the empty proposer.
\<close>

definition Equal :: "ProposalNumber \<Rightarrow> ProposalNumber \<Rightarrow> bool" where
  "Equal a b = (Round a = Round b \<and> ProposerID a = ProposerID b)"

definition IsZero :: "ProposalNumber \<Rightarrow> bool" where
  "IsZero a = (Round a = 0 \<and> ProposerID a = '''')"

definition GreaterThan :: "ProposalNumber \<Rightarrow> ProposalNumber \<Rightarrow> bool" where
  "GreaterThan a b =
     (Round b <s Round a \<or> (Round a = Round b \<and> ProposerID b < ProposerID a))"

definition LessThan :: "ProposalNumber \<Rightarrow> ProposalNumber \<Rightarrow> bool" where
  "LessThan a b = GreaterThan b a"

definition GreaterOrEqual :: "ProposalNumber \<Rightarrow> ProposalNumber \<Rightarrow> bool" where
  "GreaterOrEqual a b = (GreaterThan a b \<or> Equal a b)"

subsection \<open>Messages (\<^verbatim>\<open>package paxos\<close>, \<^verbatim>\<open>message.go\<close>)\<close>

record Prepare =
  prepProposalNumber :: ProposalNumber
  prepFrom :: string

record Promise =
  promProposalNumber :: ProposalNumber
  promAcceptedProposal :: ProposalNumber
  promAcceptedValue :: bytes
  promFrom :: string
  promOK :: bool

record Reject =
  rejProposalNumber :: ProposalNumber
  rejHighestSeen :: ProposalNumber
  rejFrom :: string

record Accept =
  accProposalNumber :: ProposalNumber
  accValue :: bytes
  accFrom :: string

record Accepted =
  acdProposalNumber :: ProposalNumber
  acdValue :: bytes
  acdFrom :: string
  acdOK :: bool

record Learn =
  lrnProposalNumber :: ProposalNumber
  lrnValue :: bytes
  lrnFrom :: string

text \<open>
  A message travels as a Go interface value: its dynamic type is one of the six structs, or
  a pointer to one (\<^verbatim>\<open>routeMessage\<close> has cases for both), or anything else.
\<close>

datatype payload =
    PrepareMsg Prepare
  | PromiseMsg Promise
  | RejectMsg Reject
  | AcceptMsg Accept
  | AcceptedMsg Accepted
  | LearnMsg Learn
  | OtherMsg string

datatype message = Val payload | Ptr payload

subsection \<open>Transport\<close>

text \<open>
  Modelled from the spec: the repository holds no transport implementation, only the
  contract (spec 6.4, \<^verbatim>\<open>internal/transport/transport.go\<close>): \<^verbatim>\<open>Receive\<close> yields the next
  message, or an error once the transport is closed; \<^verbatim>\<open>Broadcast\<close> and \<^verbatim>\<open>Send\<close> hand a
  message to the fabric. The transport is the list of outcomes of the coming \<^verbatim>\<open>Receive\<close>
  calls; when the list is used up the transport is closed and every further \<^verbatim>\<open>Receive\<close>
  fails. What was sent is recorded in order.
\<close>

datatype error = ErrRejected | ErrClosed | ErrTimeout | ErrOther string

datatype out_event = Broadcasted message | Sent string message

record Transport =
  inbox :: "(error + message) list"
  outbox :: "out_event list"

definition Receive :: "Transport \<Rightarrow> (error + message) \<times> Transport" where
  "Receive t = (case inbox t of
                  [] \<Rightarrow> (Inl ErrClosed, t)
                | r # rs \<Rightarrow> (r, t\<lparr>inbox := rs\<rparr>))"

definition Broadcast :: "Transport \<Rightarrow> message \<Rightarrow> Transport" where
  "Broadcast t m = t\<lparr>outbox := outbox t @ [Broadcasted m]\<rparr>"

definition Send :: "Transport \<Rightarrow> string \<Rightarrow> message \<Rightarrow> Transport" where
  "Send t to m = t\<lparr>outbox := outbox t @ [Sent to m]\<rparr>"

subsection \<open>Proposer (\<^verbatim>\<open>package paxos\<close>, \<^verbatim>\<open>proposer.go\<close>)\<close>

record Proposer =
  idP :: string
  highestRound :: int64
  currentProposal :: ProposalNumber
  originalValue :: bytes
  valueToPropose :: bytes
  promise :: "Promise list"
  quorumSize :: int

definition NewProposer :: "string \<Rightarrow> int \<Rightarrow> Proposer" where
  "NewProposer i q =
     \<lparr>idP = i, highestRound = 0, currentProposal = zeroProposal, originalValue = [],
      valueToPropose = [], promise = [], quorumSize = q\<rparr>"

definition generateProposalNumber :: "Proposer \<Rightarrow> ProposalNumber \<times> Proposer" where
  "generateProposalNumber p =
     (let p' = p\<lparr>highestRound := highestRound p + 1\<rparr>
      in (\<lparr>Round = highestRound p', ProposerID = idP p'\<rparr>, p'))"

definition handleRejection :: "Proposer \<Rightarrow> ProposalNumber \<Rightarrow> Proposer" where
  "handleRejection p highestSeen =
     (if highestRound p <s Round highestSeen
      then p\<lparr>highestRound := Round highestSeen\<rparr> else p)"

text \<open>The receive loop of \<^verbatim>\<open>runPhase1\<close>; \<open>promiseCount\<close> is the loop's local counter.\<close>

function phase1_loop :: "Proposer \<Rightarrow> int \<Rightarrow> Transport \<Rightarrow> error option \<times> Proposer \<times> Transport" where
  "phase1_loop p promiseCount t =
     (if promiseCount < quorumSize p then
        (case Receive t of
           (Inl err, t') \<Rightarrow> (Some err, p, t')
         | (Inr msg, t') \<Rightarrow>
             (case msg of
                Val (PromiseMsg pr) \<Rightarrow>
                  if \<not> Equal (promProposalNumber pr) (currentProposal p)
                  then phase1_loop p promiseCount t'
                  else if \<not> promOK pr
                  then (Some ErrRejected, handleRejection p (promAcceptedProposal pr), t')
                  else phase1_loop (p\<lparr>promise := promise p @ [pr]\<rparr>) (promiseCount + 1) t'
              | _ \<Rightarrow> phase1_loop p promiseCount t'))
      else (None, p, t))"
  by pat_completeness auto
termination
  by (relation "measure (\<lambda>(p, c, t). length (inbox t))")
     (auto simp: Receive_def split: list.splits)

text \<open>The loop over \<^verbatim>\<open>p.promise\<close> that adopts a previously accepted value.\<close>

fun adopt_loop :: "Promise list \<Rightarrow> ProposalNumber \<Rightarrow> bytes \<Rightarrow> ProposalNumber \<times> bytes" where
  "adopt_loop [] highestAccepted v = (highestAccepted, v)"
| "adopt_loop (pr # prs) highestAccepted v =
     (if \<not> IsZero (promAcceptedProposal pr) then
        (if GreaterThan (promAcceptedProposal pr) highestAccepted
         then adopt_loop prs (promAcceptedProposal pr) (promAcceptedValue pr)
         else adopt_loop prs highestAccepted v)
      else adopt_loop prs highestAccepted v)"

definition runPhase1 :: "Proposer \<Rightarrow> Transport \<Rightarrow> error option \<times> Proposer \<times> Transport" where
  "runPhase1 p t =
     (let prepareMsg = \<lparr>prepProposalNumber = currentProposal p, prepFrom = idP p\<rparr>;
          t1 = Broadcast t (Val (PrepareMsg prepareMsg))
      in case phase1_loop p 0 t1 of
           (Some err, p', t') \<Rightarrow> (Some err, p', t')
         | (None, p', t') \<Rightarrow>
             (None, p'\<lparr>valueToPropose := snd (adopt_loop (promise p') zeroProposal (valueToPropose p'))\<rparr>, t'))"

text \<open>The receive loop of \<^verbatim>\<open>runPhase2\<close>.\<close>

function phase2_loop :: "Proposer \<Rightarrow> int \<Rightarrow> Transport \<Rightarrow> error option \<times> Transport" where
  "phase2_loop p acceptedCount t =
     (if acceptedCount < quorumSize p then
        (case Receive t of
           (Inl err, t') \<Rightarrow> (Some err, t')
         | (Inr msg, t') \<Rightarrow>
             (case msg of
                Val (AcceptedMsg a) \<Rightarrow>
                  if \<not> Equal (acdProposalNumber a) (currentProposal p)
                  then phase2_loop p acceptedCount t'
                  else if \<not> acdOK a
                  then (Some ErrRejected, t')
                  else phase2_loop p (acceptedCount + 1) t'
              | _ \<Rightarrow> phase2_loop p acceptedCount t'))
      else (None, t))"
  by pat_completeness auto
termination
  by (relation "measure (\<lambda>(p, c, t). length (inbox t))")
     (auto simp: Receive_def split: list.splits)

definition runPhase2 :: "Proposer \<Rightarrow> Transport \<Rightarrow> error option \<times> Proposer \<times> Transport" where
  "runPhase2 p t =
     (let acceptMsg = \<lparr>accProposalNumber = currentProposal p, accValue = valueToPropose p,
                       accFrom = idP p\<rparr>;
          t1 = Broadcast t (Val (AcceptMsg acceptMsg))
      in case phase2_loop p 0 t1 of
           (Some err, t') \<Rightarrow> (Some err, p, t')
         | (None, t') \<Rightarrow>
             (let learnMsg = \<lparr>lrnProposalNumber = currentProposal p, lrnValue = valueToPropose p,
                              lrnFrom = idP p\<rparr>
              in (None, p, Broadcast t' (Val (LearnMsg learnMsg)))))"

text \<open>
  The first two statements of the body of the \<^verbatim>\<open>for\<close> loop of \<^verbatim>\<open>Propose\<close>: a new proposal
  number, and \<^verbatim>\<open>p.promise = nil\<close>. Nothing else is reset.
\<close>

definition attempt_start :: "Proposer \<Rightarrow> Proposer" where
  "attempt_start p =
     (let (pn, p') = generateProposalNumber p
      in p'\<lparr>currentProposal := pn, promise := []\<rparr>)"

text \<open>
  The \<^verbatim>\<open>for\<close> loop of \<^verbatim>\<open>Propose\<close>. It has no exit but the \<^verbatim>\<open>return\<close> after a successful
  Phase 2, so it may run forever: \<open>None\<close> is "does not return". The result is the returned
  value (the error result of the Go function is always \<^verbatim>\<open>nil\<close>) with the final proposer
  and transport.
\<close>

partial_function (option) propose_loop ::
    "Proposer \<Rightarrow> Transport \<Rightarrow> (bytes \<times> Proposer \<times> Transport) option" where
  "propose_loop p t =
     (case runPhase1 (attempt_start p) t of
        (Some err, p1, t1) \<Rightarrow> propose_loop p1 t1
      | (None, p1, t1) \<Rightarrow>
          (case runPhase2 p1 t1 of
             (Some err, p2, t2) \<Rightarrow> propose_loop p2 t2
           | (None, p2, t2) \<Rightarrow> Some (valueToPropose p2, p2, t2)))"

declare propose_loop.simps [code]

definition Propose :: "Proposer \<Rightarrow> Transport \<Rightarrow> bytes \<Rightarrow> (bytes \<times> Proposer \<times> Transport) option" where
  "Propose p t v = propose_loop (p\<lparr>originalValue := v, valueToPropose := v\<rparr>) t"

subsection \<open>In-memory storage (\<^verbatim>\<open>package storage\<close>, \<^verbatim>\<open>memory.go\<close>)\<close>

text \<open>
  The storage copies byte slices in and out, and its contract is about who shares a
  backing array with whom. So slices are modelled as Go has them: a slice is \<^verbatim>\<open>nil\<close> or a
  window (offset, length) into a backing array, and the heap is the list of all backing
  arrays, addressed by position. \<^verbatim>\<open>make\<close> appends a fresh zeroed array; \<^verbatim>\<open>copy\<close> writes
  \<open>min (len dst) (len src)\<close> elements into the destination's window.
\<close>

record slice_hdr =
  base :: nat
  off :: nat
  slen :: nat

type_synonym slice = "slice_hdr option"
type_synonym heap = "bytes list"

definition lenBytes :: "slice \<Rightarrow> nat" where
  "lenBytes s = (case s of None \<Rightarrow> 0 | Some d \<Rightarrow> slen d)"

definition contents :: "heap \<Rightarrow> slice \<Rightarrow> bytes" where
  "contents h s = (case s of None \<Rightarrow> [] | Some d \<Rightarrow> take (slen d) (drop (off d) (h ! base d)))"

text \<open>A slice a Go program can hold: its window lies inside an allocated array.\<close>

definition valid :: "heap \<Rightarrow> slice \<Rightarrow> bool" where
  "valid h s = (case s of None \<Rightarrow> True
                | Some d \<Rightarrow> base d < length h \<and> off d + slen d \<le> length (h ! base d))"

definition makeBytes :: "heap \<Rightarrow> nat \<Rightarrow> slice \<times> heap" where
  "makeBytes h n = (Some \<lparr>base = length h, off = 0, slen = n\<rparr>, h @ [replicate n 0])"

definition copyBytes :: "heap \<Rightarrow> slice \<Rightarrow> slice \<Rightarrow> heap" where
  "copyBytes h dst src =
     (case dst of
        None \<Rightarrow> h
      | Some d \<Rightarrow>
          (let k = min (lenBytes dst) (lenBytes src); arr = h ! base d
           in h[base d := take (off d) arr @ take k (contents h src) @ drop (off d + k) arr]))"

text \<open>
  Whatever a holder of slice \<open>s\<close> writes through it (or through any other slice of the same
  backing array) replaces the contents of that one array.
\<close>

definition overwrite :: "heap \<Rightarrow> slice \<Rightarrow> bytes \<Rightarrow> heap" where
  "overwrite h s arr = (case s of None \<Rightarrow> h | Some d \<Rightarrow> h[base d := arr])"

record MemoryStorage =
  msHighestPromised :: ProposalNumber
  msAcceptedProposal :: ProposalNumber
  msAcceptedValue :: slice

definition NewMemoryStorage :: MemoryStorage where
  "NewMemoryStorage =
     \<lparr>msHighestPromised = zeroProposal, msAcceptedProposal = zeroProposal, msAcceptedValue = None\<rparr>"

text \<open>Every method returns a \<^verbatim>\<open>nil\<close> error; the error result is left out.\<close>

definition SavePromised :: "MemoryStorage \<Rightarrow> ProposalNumber \<Rightarrow> MemoryStorage" where
  "SavePromised m proposal = m\<lparr>msHighestPromised := proposal\<rparr>"

definition LoadPromised :: "MemoryStorage \<Rightarrow> ProposalNumber" where
  "LoadPromised m = msHighestPromised m"

definition SaveAccepted :: "MemoryStorage \<Rightarrow> heap \<Rightarrow> ProposalNumber \<Rightarrow> slice \<Rightarrow> MemoryStorage \<times> heap" where
  "SaveAccepted m h proposal v =
     (let (buf, h1) = makeBytes h (lenBytes v);
          h2 = copyBytes h1 buf v
      in (m\<lparr>msAcceptedProposal := proposal, msAcceptedValue := buf\<rparr>, h2))"

definition LoadAccepted :: "MemoryStorage \<Rightarrow> heap \<Rightarrow> ProposalNumber \<times> slice \<times> heap" where
  "LoadAccepted m h =
     (let (result, h1) = makeBytes h (lenBytes (msAcceptedValue m));
          h2 = copyBytes h1 result (msAcceptedValue m)
      in (msAcceptedProposal m, result, h2))"

definition Close :: "MemoryStorage \<Rightarrow> MemoryStorage" where
  "Close m = m\<lparr>msHighestPromised := zeroProposal, msAcceptedProposal := zeroProposal,
               msAcceptedValue := None\<rparr>"

definition Reset :: "MemoryStorage \<Rightarrow> MemoryStorage" where
  "Reset m = m\<lparr>msHighestPromised := zeroProposal, msAcceptedProposal := zeroProposal,
               msAcceptedValue := None\<rparr>"

subsection \<open>Acceptor (\<^verbatim>\<open>package paxos\<close>, \<^verbatim>\<open>acceptor.go\<close>)\<close>

text \<open>
  The Go code of the acceptor (\<^verbatim>\<open>src/README.md\<close>, lines 291 to 394). The acceptor holds its
  storage as a value of the interface \<^verbatim>\<open>Storage\<close>. An interface value is its method table
  together with the implementation's state \<open>self\<close>; a method returns its results, the error
  last (\<open>None\<close> is \<^verbatim>\<open>nil\<close>), and the new state. Any implementation may fail. Byte slices
  cross the interface by their contents. \<^verbatim>\<open>storage.ProposalNumber\<close> has the fields of
  \<^verbatim>\<open>ProposalNumber\<close>; \<^verbatim>\<open>toStorageProposal\<close> copies them. Every handler holds the acceptor's
  mutex for the whole of its body, so handlers run one at a time, as modelled.
\<close>

record 's Storage =
  ifSavePromised :: "'s \<Rightarrow> ProposalNumber \<Rightarrow> error option \<times> 's"
  ifLoadPromised :: "'s \<Rightarrow> ProposalNumber \<times> error option \<times> 's"
  ifSaveAccepted :: "'s \<Rightarrow> ProposalNumber \<Rightarrow> bytes \<Rightarrow> error option \<times> 's"
  ifLoadAccepted :: "'s \<Rightarrow> ProposalNumber \<times> bytes \<times> error option \<times> 's"
  ifClose :: "'s \<Rightarrow> error option \<times> 's"
  self :: 's

text \<open>The method calls \<^verbatim>\<open>s.SavePromised(p)\<close>, \<^verbatim>\<open>s.LoadPromised()\<close>, ... on an interface value.\<close>

definition callSavePromised :: "'s Storage \<Rightarrow> ProposalNumber \<Rightarrow> error option \<times> 's Storage" where
  "callSavePromised s proposal =
     (let (err, st) = ifSavePromised s (self s) proposal in (err, s\<lparr>self := st\<rparr>))"

definition callLoadPromised :: "'s Storage \<Rightarrow> ProposalNumber \<times> error option \<times> 's Storage" where
  "callLoadPromised s =
     (let (promised, err, st) = ifLoadPromised s (self s) in (promised, err, s\<lparr>self := st\<rparr>))"

definition callSaveAccepted ::
    "'s Storage \<Rightarrow> ProposalNumber \<Rightarrow> bytes \<Rightarrow> error option \<times> 's Storage" where
  "callSaveAccepted s proposal v =
     (let (err, st) = ifSaveAccepted s (self s) proposal v in (err, s\<lparr>self := st\<rparr>))"

definition callLoadAccepted ::
    "'s Storage \<Rightarrow> ProposalNumber \<times> bytes \<times> error option \<times> 's Storage" where
  "callLoadAccepted s =
     (let (accepted, v, err, st) = ifLoadAccepted s (self s) in (accepted, v, err, s\<lparr>self := st\<rparr>))"

definition toStorageProposal :: "ProposalNumber \<Rightarrow> ProposalNumber" where
  "toStorageProposal p = \<lparr>Round = Round p, ProposerID = ProposerID p\<rparr>"

record 's Acceptor =
  idA :: string
  highestPromised :: ProposalNumber
  acceptedProposal :: ProposalNumber
  acceptedValue :: bytes
  storage :: "'s Storage"

text \<open>A load that fails leaves the zero values of the fresh struct in place.\<close>

definition NewAcceptor :: "string \<Rightarrow> 's Storage \<Rightarrow> 's Acceptor" where
  "NewAcceptor i s =
     (let a = \<lparr>idA = i, highestPromised = zeroProposal, acceptedProposal = zeroProposal,
               acceptedValue = [], storage = s\<rparr>;
          (promised, err, s1) = callLoadPromised s;
          a1 = (if err = None
                then a\<lparr>highestPromised := \<lparr>Round = Round promised, ProposerID = ProposerID promised\<rparr>\<rparr>
                else a);
          (accepted, v, err', s2) = callLoadAccepted s1;
          a2 = (if err' = None
                then a1\<lparr>acceptedProposal := \<lparr>Round = Round accepted, ProposerID = ProposerID accepted\<rparr>,
                        acceptedValue := v\<rparr>
                else a1)
      in a2\<lparr>storage := s2\<rparr>)"

text \<open>
  The error results of \<^verbatim>\<open>SavePromised\<close> and \<^verbatim>\<open>SaveAccepted\<close> are discarded. A rejecting Promise
  carries \<^verbatim>\<open>highestPromised\<close> in its \<^verbatim>\<open>AcceptedProposal\<close> field and no value.
\<close>

definition HandlePrepare :: "'s Acceptor \<Rightarrow> Prepare \<Rightarrow> Promise \<times> 's Acceptor" where
  "HandlePrepare a msg =
     (if GreaterThan (prepProposalNumber msg) (highestPromised a) then
        (let a1 = a\<lparr>highestPromised := prepProposalNumber msg\<rparr>;
             (err, s1) = callSavePromised (storage a1) (toStorageProposal (highestPromised a1));
             a2 = a1\<lparr>storage := s1\<rparr>
         in (\<lparr>promProposalNumber = prepProposalNumber msg,
              promAcceptedProposal = acceptedProposal a2,
              promAcceptedValue = acceptedValue a2,
              promFrom = idA a2, promOK = True\<rparr>, a2))
      else
        (\<lparr>promProposalNumber = prepProposalNumber msg,
          promAcceptedProposal = highestPromised a,
          promAcceptedValue = [],
          promFrom = idA a, promOK = False\<rparr>, a))"

definition HandleAccept :: "'s Acceptor \<Rightarrow> Accept \<Rightarrow> Accepted \<times> 's Acceptor" where
  "HandleAccept a msg =
     (if GreaterThan (accProposalNumber msg) (highestPromised a)
         \<or> Equal (accProposalNumber msg) (highestPromised a) then
        (let a1 = a\<lparr>highestPromised := accProposalNumber msg,
                     acceptedProposal := accProposalNumber msg,
                     acceptedValue := accValue msg\<rparr>;
             (err, s1) = callSavePromised (storage a1) (toStorageProposal (highestPromised a1));
             (err', s2) = callSaveAccepted s1 (toStorageProposal (acceptedProposal a1)) (acceptedValue a1);
             a2 = a1\<lparr>storage := s2\<rparr>
         in (\<lparr>acdProposalNumber = accProposalNumber msg, acdValue = accValue msg,
              acdFrom = idA a2, acdOK = True\<rparr>, a2))
      else
        (\<lparr>acdProposalNumber = accProposalNumber msg, acdValue = [],
          acdFrom = idA a, acdOK = False\<rparr>, a))"

definition GetState :: "'s Acceptor \<Rightarrow> ProposalNumber \<times> ProposalNumber \<times> bytes" where
  "GetState a = (highestPromised a, acceptedProposal a, acceptedValue a)"

text \<open>
  The in-memory storage as a \<^verbatim>\<open>Storage\<close>: its state is the struct and the heap its slices
  live in. The value handed to \<^verbatim>\<open>SaveAccepted\<close> is a slice over an array of the caller's.
\<close>

definition callerSlice :: "heap \<Rightarrow> bytes \<Rightarrow> slice \<times> heap" where
  "callerSlice h v = (Some \<lparr>base = length h, off = 0, slen = length v\<rparr>, h @ [v])"

definition memoryStorage :: "MemoryStorage \<Rightarrow> heap \<Rightarrow> (MemoryStorage \<times> heap) Storage" where
  "memoryStorage m0 h0 =
     \<lparr>ifSavePromised = (\<lambda>(m, h) proposal. (None, (SavePromised m proposal, h))),
      ifLoadPromised = (\<lambda>(m, h). (LoadPromised m, None, (m, h))),
      ifSaveAccepted = (\<lambda>(m, h) proposal v.
         let (buf, h1) = callerSlice h v; (m', h2) = SaveAccepted m h1 proposal buf
         in (None, (m', h2))),
      ifLoadAccepted = (\<lambda>(m, h).
         let (proposal, r, h') = LoadAccepted m h in (proposal, contents h' r, None, (m, h'))),
      ifClose = (\<lambda>(m, h). (None, (Close m, h))),
      self = (m0, h0)\<rparr>"


subsection \<open>Node (\<^verbatim>\<open>package node\<close>, \<^verbatim>\<open>node.go\<close>)\<close>

text \<open>
  The learner is not in the repository; the node's learner is represented by the calls
  \<^verbatim>\<open>routeMessage\<close> makes on it, in order. \<^verbatim>\<open>log.Printf\<close> lines are recorded likewise.
\<close>

datatype learner_call = HandleAccepted Accepted | HandleLearn Learn

datatype log_line = UnknownMessageType message | ReceiveError error

record 's Node =
  idN :: string
  proposer :: Proposer
  acceptor :: "'s Acceptor"
  learner :: "learner_call list"
  transport :: Transport
  logged :: "log_line list"

definition routePrepare :: "'s Node \<Rightarrow> Prepare \<Rightarrow> 's Node" where
  "routePrepare n m =
     (let (response, a') = HandlePrepare (acceptor n) m
      in n\<lparr>acceptor := a',
            transport := Send (transport n) (prepFrom m) (Val (PromiseMsg response))\<rparr>)"

definition routeAccept :: "'s Node \<Rightarrow> Accept \<Rightarrow> 's Node" where
  "routeAccept n m =
     (let (response, a') = HandleAccept (acceptor n) m;
          n' = n\<lparr>acceptor := a',
                  transport := Send (transport n) (accFrom m) (Val (AcceptedMsg response))\<rparr>
      in if acdOK response
         then n'\<lparr>learner := learner n' @ [HandleAccepted response]\<rparr>
         else n')"

definition routeMessage :: "'s Node \<Rightarrow> message \<Rightarrow> 's Node" where
  "routeMessage n msg =
     (case msg of
        Val (PrepareMsg m) \<Rightarrow> routePrepare n m
      | Ptr (PrepareMsg m) \<Rightarrow> routePrepare n m
      | Val (AcceptMsg m) \<Rightarrow> routeAccept n m
      | Ptr (AcceptMsg m) \<Rightarrow> routeAccept n m
      | Val (AcceptedMsg m) \<Rightarrow> n\<lparr>learner := learner n @ [HandleAccepted m]\<rparr>
      | Ptr (AcceptedMsg m) \<Rightarrow> n\<lparr>learner := learner n @ [HandleAccepted m]\<rparr>
      | Val (LearnMsg m) \<Rightarrow> n\<lparr>learner := learner n @ [HandleLearn m]\<rparr>
      | Ptr (LearnMsg m) \<Rightarrow> n\<lparr>learner := learner n @ [HandleLearn m]\<rparr>
      | _ \<Rightarrow> n\<lparr>logged := logged n @ [UnknownMessageType msg]\<rparr>)"

text \<open>
  One pass through the \<^verbatim>\<open>default\<close> branch of the loop of \<^verbatim>\<open>handleMessages\<close> (the node is
  running): take a message from the transport, go on silently after a timeout, log any
  other error, route the message otherwise. The transport is the one the proposer reads.
\<close>

definition handleMessagesStep :: "'s Node \<Rightarrow> 's Node" where
  "handleMessagesStep n =
     (case Receive (transport n) of
        (Inl err, t') \<Rightarrow>
          if err = ErrTimeout then n\<lparr>transport := t'\<rparr>
          else n\<lparr>transport := t', logged := logged n @ [ReceiveError err]\<rparr>
      | (Inr msg, t') \<Rightarrow> routeMessage (n\<lparr>transport := t'\<rparr>) msg)"

subsection \<open>What a phase has received\<close>

text \<open>
  Specification-side views used to state what the quorum loops count: the messages a phase
  took from the transport, and among them the affirmative Promises (Accepteds) for a
  given proposal, one entry per delivery.
\<close>

fun okPromises :: "ProposalNumber \<Rightarrow> (error + message) list \<Rightarrow> Promise list" where
  "okPromises pn [] = []"
| "okPromises pn (Inr (Val (PromiseMsg pr)) # rs) =
     (if Equal (promProposalNumber pr) pn \<and> promOK pr
      then pr # okPromises pn rs else okPromises pn rs)"
| "okPromises pn (r # rs) = okPromises pn rs"

fun okAccepteds :: "ProposalNumber \<Rightarrow> (error + message) list \<Rightarrow> Accepted list" where
  "okAccepteds pn [] = []"
| "okAccepteds pn (Inr (Val (AcceptedMsg a)) # rs) =
     (if Equal (acdProposalNumber a) pn \<and> acdOK a
      then a # okAccepteds pn rs else okAccepteds pn rs)"
| "okAccepteds pn (r # rs) = okAccepteds pn rs"

definition received :: "Transport \<Rightarrow> Transport \<Rightarrow> (error + message) list" where
  "received t t' = take (length (inbox t) - length (inbox t')) (inbox t)"

text \<open>
  A stretch of the inbox that does not end Phase 1 for proposal \<open>pn\<close> by itself: it holds no
  receive error and no rejecting Promise for \<open>pn\<close>. Likewise for Phase 2 and Accepteds.
\<close>

fun quietPromises :: "ProposalNumber \<Rightarrow> (error + message) list \<Rightarrow> bool" where
  "quietPromises pn [] = True"
| "quietPromises pn (Inl e # rs) = False"
| "quietPromises pn (Inr (Val (PromiseMsg pr)) # rs) =
     (if Equal (promProposalNumber pr) pn \<and> \<not> promOK pr then False else quietPromises pn rs)"
| "quietPromises pn (Inr m # rs) = quietPromises pn rs"

fun quietAccepteds :: "ProposalNumber \<Rightarrow> (error + message) list \<Rightarrow> bool" where
  "quietAccepteds pn [] = True"
| "quietAccepteds pn (Inl e # rs) = False"
| "quietAccepteds pn (Inr (Val (AcceptedMsg a)) # rs) =
     (if Equal (acdProposalNumber a) pn \<and> \<not> acdOK a then False else quietAccepteds pn rs)"
| "quietAccepteds pn (Inr m # rs) = quietAccepteds pn rs"

subsection \<open>Concrete runs\<close>

definition ex_heap :: heap where
  "ex_heap = [[1, 2, 3]]"

definition ex_value :: slice where
  "ex_value = Some \<lparr>base = 0, off = 1, slen = 2\<rparr>"

definition ex_pn :: ProposalNumber where
  "ex_pn = \<lparr>Round = 5, ProposerID = ''X''\<rparr>"

definition ex_saved :: MemoryStorage where
  "ex_saved =
     \<lparr>msHighestPromised = zeroProposal, msAcceptedProposal = ex_pn,
      msAcceptedValue = Some \<lparr>base = 1, off = 0, slen = 2\<rparr>\<rparr>"

text \<open>One acceptor, \<open>a1\<close>, whose Promise and Accepted are each delivered twice.\<close>

definition ex_round1 :: ProposalNumber where
  "ex_round1 = \<lparr>Round = 1, ProposerID = ''n0''\<rparr>"

definition ex_dup_promise :: Promise where
  "ex_dup_promise =
     \<lparr>promProposalNumber = ex_round1, promAcceptedProposal = zeroProposal,
      promAcceptedValue = [], promFrom = ''a1'', promOK = True\<rparr>"

definition ex_dup_accepted :: Accepted where
  "ex_dup_accepted =
     \<lparr>acdProposalNumber = ex_round1, acdValue = [66], acdFrom = ''a1'', acdOK = True\<rparr>"

definition ex_dup_transport :: Transport where
  "ex_dup_transport =
     \<lparr>inbox = [Inr (Val (PromiseMsg ex_dup_promise)), Inr (Val (PromiseMsg ex_dup_promise)),
               Inr (Val (AcceptedMsg ex_dup_accepted)), Inr (Val (AcceptedMsg ex_dup_accepted))],
      outbox = []\<rparr>"

definition ex_dup_final :: Proposer where
  "ex_dup_final =
     \<lparr>idP = ''n0'', highestRound = 1, currentProposal = ex_round1, originalValue = [66],
      valueToPropose = [66], promise = [ex_dup_promise, ex_dup_promise], quorumSize = 2\<rparr>"

definition ex_dup_outbox :: "out_event list" where
  "ex_dup_outbox =
     [Broadcasted (Val (PrepareMsg \<lparr>prepProposalNumber = ex_round1, prepFrom = ''n0''\<rparr>)),
      Broadcasted (Val (AcceptMsg \<lparr>accProposalNumber = ex_round1, accValue = [66], accFrom = ''n0''\<rparr>)),
      Broadcasted (Val (LearnMsg \<lparr>lrnProposalNumber = ex_round1, lrnValue = [66], lrnFrom = ''n0''\<rparr>))]"

text \<open>
  A rejection that reports the acceptor's highest promise \<open>(3, n2)\<close> (spec scenario S3), and
  one that reports the largest \<^verbatim>\<open>int64\<close> round.
\<close>

definition ex_seen :: ProposalNumber where
  "ex_seen = \<lparr>Round = 3, ProposerID = ''n2''\<rparr>"

definition ex_max_seen :: ProposalNumber where
  "ex_max_seen = \<lparr>Round = 9223372036854775807, ProposerID = ''n2''\<rparr>"

text \<open>
  Phase 1 of round 1 of \<open>n0\<close> (quorum 3): \<open>a1\<close> promises, then \<open>a2\<close>, which has promised
  \<open>(3, n2)\<close>, rejects.
\<close>

definition ex_reject_promise :: Promise where
  "ex_reject_promise =
     \<lparr>promProposalNumber = ex_round1, promAcceptedProposal = ex_seen, promAcceptedValue = [],
      promFrom = ''a2'', promOK = False\<rparr>"

definition ex_reject_transport :: Transport where
  "ex_reject_transport =
     \<lparr>inbox = [Inr (Val (PromiseMsg ex_dup_promise)), Inr (Val (PromiseMsg ex_reject_promise))],
      outbox = []\<rparr>"

text \<open>
  Acceptor \<open>a2\<close> is started on an in-memory storage in which the promise \<open>(7, n2)\<close> has been
  saved; proposer \<open>n0\<close> is in Phase 2 of its round 1 and its Accept reaches \<open>a2\<close>.
\<close>

definition ex_acceptor :: "(MemoryStorage \<times> heap) Acceptor" where
  "ex_acceptor =
     NewAcceptor ''a2''
       (memoryStorage (SavePromised NewMemoryStorage \<lparr>Round = 7, ProposerID = ''n2''\<rparr>) [])"


definition ex_accept :: Accept where
  "ex_accept = \<lparr>accProposalNumber = ex_round1, accValue = [66], accFrom = ''n0''\<rparr>"

definition ex_rejected :: Accepted where
  "ex_rejected = \<lparr>acdProposalNumber = ex_round1, acdValue = [], acdFrom = ''a2'', acdOK = False\<rparr>"

definition ex_phase2_proposer :: Proposer where
  "ex_phase2_proposer =
     \<lparr>idP = ''n0'', highestRound = 1, currentProposal = ex_round1, originalValue = [66],
      valueToPropose = [66], promise = [], quorumSize = 2\<rparr>"

definition ex_prepare :: Prepare where
  "ex_prepare = \<lparr>prepProposalNumber = \<lparr>Round = 7, ProposerID = ''n2''\<rparr>, prepFrom = ''n2''\<rparr>"

text \<open>
  The run of spec scenario "value adoption" followed by a rejection. Acceptor \<open>a1\<close> has
  accepted value \<open>A\<close> (byte 65) at proposal \<open>(1, m)\<close>; the client of \<open>n0\<close> proposes \<open>B\<close>
  (byte 66). Round 1: \<open>a1\<close> and \<open>a2\<close> promise, \<open>n0\<close> adopts \<open>A\<close>; \<open>a2\<close>, which has meanwhile
  promised \<open>(2, k)\<close>, rejects the Accept. Round 2: \<open>a2\<close> and \<open>a3\<close>, which have accepted
  nothing, promise and then accept.
\<close>

definition ex_round2 :: ProposalNumber where
  "ex_round2 = \<lparr>Round = 2, ProposerID = ''n0''\<rparr>"

definition ex_promise :: "ProposalNumber \<Rightarrow> ProposalNumber \<Rightarrow> bytes \<Rightarrow> string \<Rightarrow> Promise" where
  "ex_promise pn ap av frm =
     \<lparr>promProposalNumber = pn, promAcceptedProposal = ap, promAcceptedValue = av,
      promFrom = frm, promOK = True\<rparr>"

definition ex_accepted :: "ProposalNumber \<Rightarrow> bytes \<Rightarrow> string \<Rightarrow> bool \<Rightarrow> Accepted" where
  "ex_accepted pn v frm ok =
     \<lparr>acdProposalNumber = pn, acdValue = v, acdFrom = frm, acdOK = ok\<rparr>"

definition ex_carry_round1 :: "(error + message) list" where
  "ex_carry_round1 =
     [Inr (Val (PromiseMsg (ex_promise ex_round1 \<lparr>Round = 1, ProposerID = ''m''\<rparr> [65] ''a1''))),
      Inr (Val (PromiseMsg (ex_promise ex_round1 zeroProposal [] ''a2''))),
      Inr (Val (AcceptedMsg (ex_accepted ex_round1 [] ''a2'' False)))]"

definition ex_carry_round2 :: "(error + message) list" where
  "ex_carry_round2 =
     [Inr (Val (PromiseMsg (ex_promise ex_round2 zeroProposal [] ''a2''))),
      Inr (Val (PromiseMsg (ex_promise ex_round2 zeroProposal [] ''a3''))),
      Inr (Val (AcceptedMsg (ex_accepted ex_round2 [65] ''a2'' True))),
      Inr (Val (AcceptedMsg (ex_accepted ex_round2 [65] ''a3'' True)))]"

definition ex_carry_transport :: Transport where
  "ex_carry_transport = \<lparr>inbox = ex_carry_round1 @ ex_carry_round2, outbox = []\<rparr>"

text \<open>The proposer as \<^verbatim>\<open>Propose\<close> has set it up for the client value \<open>B\<close>.\<close>

definition ex_client :: Proposer where
  "ex_client = (NewProposer ''n0'' 2)\<lparr>originalValue := [66], valueToPropose := [66]\<rparr>"

text \<open>The proposer after round 1 has failed in Phase 2.\<close>

definition ex_after_round1 :: Proposer where
  "ex_after_round1 =
     \<lparr>idP = ''n0'', highestRound = 1, currentProposal = ex_round1, originalValue = [66],
      valueToPropose = [65],
      promise = [ex_promise ex_round1 \<lparr>Round = 1, ProposerID = ''m''\<rparr> [65] ''a1'',
                 ex_promise ex_round1 zeroProposal [] ''a2''],
      quorumSize = 2\<rparr>"

definition ex_carry_final :: Proposer where
  "ex_carry_final =
     \<lparr>idP = ''n0'', highestRound = 2, currentProposal = ex_round2, originalValue = [66],
      valueToPropose = [65],
      promise = [ex_promise ex_round2 zeroProposal [] ''a2'',
                 ex_promise ex_round2 zeroProposal [] ''a3''],
      quorumSize = 2\<rparr>"

text \<open>
  A variant of round 1 of that run: in Phase 2 the Accepted of \<open>a1\<close> arrives first, then
  the rejection of \<open>a2\<close>, then the Accepted of \<open>a3\<close>.
\<close>

definition ex_mid_accepteds :: "(error + message) list" where
  "ex_mid_accepteds =
     [Inr (Val (AcceptedMsg (ex_accepted ex_round1 [65] ''a1'' True))),
      Inr (Val (AcceptedMsg (ex_accepted ex_round1 [] ''a2'' False))),
      Inr (Val (AcceptedMsg (ex_accepted ex_round1 [65] ''a3'' True)))]"

definition ex_mid_transport :: Transport where
  "ex_mid_transport = \<lparr>inbox = take 2 ex_carry_round1 @ ex_mid_accepteds, outbox = []\<rparr>"

definition ex_carry_outbox :: "out_event list" where
  "ex_carry_outbox =
     [Broadcasted (Val (PrepareMsg \<lparr>prepProposalNumber = ex_round1, prepFrom = ''n0''\<rparr>)),
      Broadcasted (Val (AcceptMsg \<lparr>accProposalNumber = ex_round1, accValue = [65], accFrom = ''n0''\<rparr>)),
      Broadcasted (Val (PrepareMsg \<lparr>prepProposalNumber = ex_round2, prepFrom = ''n0''\<rparr>)),
      Broadcasted (Val (AcceptMsg \<lparr>accProposalNumber = ex_round2, accValue = [65], accFrom = ''n0''\<rparr>)),
      Broadcasted (Val (LearnMsg \<lparr>lrnProposalNumber = ex_round2, lrnValue = [65], lrnFrom = ''n0''\<rparr>))]"

text \<open>
  The acceptors of that run, each on an in-memory storage of its own and started with
  nothing saved: \<open>a1\<close> has then accepted \<open>A\<close> at \<open>(1, m)\<close>.
\<close>

definition ex_fresh :: "string \<Rightarrow> (MemoryStorage \<times> heap) Acceptor" where
  "ex_fresh i = NewAcceptor i (memoryStorage NewMemoryStorage [])"

definition ex_prepare_of :: "ProposalNumber \<Rightarrow> Prepare" where
  "ex_prepare_of pn = \<lparr>prepProposalNumber = pn, prepFrom = ProposerID pn\<rparr>"

definition ex_accept_of :: "ProposalNumber \<Rightarrow> bytes \<Rightarrow> Accept" where
  "ex_accept_of pn v = \<lparr>accProposalNumber = pn, accValue = v, accFrom = ProposerID pn\<rparr>"

definition ex_a1 :: "(MemoryStorage \<times> heap) Acceptor" where
  "ex_a1 = snd (HandleAccept (ex_fresh ''a1'') (ex_accept_of \<lparr>Round = 1, ProposerID = ''m''\<rparr> [65]))"

text \<open>\<open>a2\<close> after it has promised \<open>(1, n0)\<close> and then \<open>(2, k)\<close>; \<open>a3\<close> after it has promised \<open>(2, k)\<close>.\<close>

definition ex_a2 :: "(MemoryStorage \<times> heap) Acceptor" where
  "ex_a2 = snd (HandlePrepare (snd (HandlePrepare (ex_fresh ''a2'') (ex_prepare_of ex_round1)))
                  (ex_prepare_of \<lparr>Round = 2, ProposerID = ''k''\<rparr>))"

definition ex_a3 :: "(MemoryStorage \<times> heap) Acceptor" where
  "ex_a3 = snd (HandlePrepare (ex_fresh ''a3'') (ex_prepare_of \<lparr>Round = 2, ProposerID = ''k''\<rparr>))"

text \<open>
  Node \<open>n0\<close> while its proposer waits in Phase 1 of round 1; the Promise of \<open>a2\<close> is the next
  message of the transport.
\<close>

definition ex_node :: "(MemoryStorage \<times> heap) Node" where
  "ex_node =
     \<lparr>idN = ''n0'', proposer = attempt_start ex_client,
      acceptor = NewAcceptor ''n0'' (memoryStorage NewMemoryStorage []),
      learner = [],
      transport = \<lparr>inbox = [Inr (Val (PromiseMsg (ex_promise ex_round1 zeroProposal [] ''a2'')))],
                   outbox = []\<rparr>,
      logged = []\<rparr>"

section \<open>Properties\<close>

subsection \<open>In-memory storage\<close>

lemma LoadPromised_SavePromised: "LoadPromised (SavePromised m p) = p"
  by (simp add: LoadPromised_def SavePromised_def)

text \<open>
  \<^verbatim>\<open>SaveAccepted\<close> leaves the saved bytes in an array of its own, the newest of the heap.
\<close>

lemma SaveAccepted_private:
  assumes "valid h v" and "SaveAccepted m h p v = (m1, h1)"
  shows "msAcceptedProposal m1 = p
       \<and> msAcceptedValue m1 = Some \<lparr>base = length h, off = 0, slen = lenBytes v\<rparr>
       \<and> length h1 = Suc (length h) \<and> h1 ! length h = contents h v
       \<and> length (contents h v) = lenBytes v"
  using assms
  by (cases v)
     (auto simp: SaveAccepted_def valid_def contents_def copyBytes_def makeBytes_def
        lenBytes_def nth_append Let_def)

text \<open>
  \<^verbatim>\<open>LoadAccepted\<close> reads the private array and answers with a fresh copy; the private array
  stays as it was.
\<close>

lemma LoadAccepted_private:
  assumes "msAcceptedValue m = Some \<lparr>base = a, off = 0, slen = n\<rparr>"
    and "a < length h" and "length (h ! a) = n"
    and "LoadAccepted m h = (q, r, h')"
  shows "q = msAcceptedProposal m \<and> contents h' r = h ! a
       \<and> r = Some \<lparr>base = length h, off = 0, slen = n\<rparr>
       \<and> length h' = Suc (length h) \<and> h' ! a = h ! a \<and> a \<noteq> length h"
  using assms
  by (auto simp: LoadAccepted_def valid_def contents_def copyBytes_def makeBytes_def
        lenBytes_def nth_append Let_def)

lemma overwrite_other:
  assumes "case s of None \<Rightarrow> True | Some d \<Rightarrow> base d \<noteq> a"
  shows "overwrite h s junk ! a = h ! a" and "length (overwrite h s junk) = length h"
  using assms by (cases s; simp add: overwrite_def)+

text \<open>
  C8. For the in-memory storage: \<^verbatim>\<open>LoadPromised\<close> after \<^verbatim>\<open>SavePromised p\<close> returns \<open>p\<close>.
  After \<^verbatim>\<open>SaveAccepted p v\<close>, \<^verbatim>\<open>LoadAccepted\<close> returns \<open>p\<close> and a slice whose bytes are those
  \<open>v\<close> had when it was saved (\<open>q1\<close>, \<open>r1\<close>). So does a later load made after the caller has
  overwritten the array behind \<open>v\<close> with anything (\<open>q2\<close>, \<open>r2\<close>), and a load made after the
  arrays behind both slices returned so far have been overwritten as well (\<open>q3\<close>, \<open>r3\<close>).
\<close>

theorem MemoryStorage_round_trip:
  assumes "valid h v"
    and "SaveAccepted m h p v = (m1, h1)"
    and "LoadAccepted m1 h1 = (q1, r1, g1)"
    and "LoadAccepted m1 (overwrite g1 v junk) = (q2, r2, g2)"
    and "LoadAccepted m1 (overwrite (overwrite g2 r1 junk1) r2 junk2) = (q3, r3, g3)"
  shows "LoadPromised (SavePromised m p) = p
       \<and> q1 = p \<and> contents g1 r1 = contents h v
       \<and> q2 = p \<and> contents g2 r2 = contents h v
       \<and> q3 = p \<and> contents g3 r3 = contents h v"
proof -
  let ?a = "length h"
  from SaveAccepted_private [OF assms(1,2)]
  have m1: "msAcceptedProposal m1 = p"
    and sl: "msAcceptedValue m1 = Some \<lparr>base = ?a, off = 0, slen = lenBytes v\<rparr>"
    and len1: "length h1 = Suc ?a"
    and priv: "h1 ! ?a = contents h v"
    and lenc: "length (contents h v) = lenBytes v"
    by simp_all
  have a1: "?a < length h1" using len1 by simp
  have l1: "length (h1 ! ?a) = lenBytes v" using priv lenc by simp
  note L1 = LoadAccepted_private [OF sl a1 l1 assms(3)]
  have one: "q1 = p" "contents g1 r1 = contents h v"
    using L1 m1 priv by auto
  have r1: "r1 = Some \<lparr>base = length h1, off = 0, slen = lenBytes v\<rparr>"
    and leng1: "length g1 = Suc (length h1)" and g1a: "g1 ! ?a = h1 ! ?a"
    using L1 by blast+
  \<comment> \<open>the caller's array lies below the private one\<close>
  have below: "case v of None \<Rightarrow> True | Some d \<Rightarrow> base d \<noteq> ?a"
    using assms(1) by (cases v) (auto simp: valid_def)
  let ?g1 = "overwrite g1 v junk"
  note ov = overwrite_other [OF below, of g1 junk]
  have a2: "?a < length ?g1" using ov leng1 len1 by simp
  have l2: "length (?g1 ! ?a) = lenBytes v" using ov g1a l1 by simp
  note L2 = LoadAccepted_private [OF sl a2 l2 assms(4)]
  have two: "q2 = p" "contents g2 r2 = contents h v"
    using L2 m1 priv ov g1a by auto
  have r2: "r2 = Some \<lparr>base = length ?g1, off = 0, slen = lenBytes v\<rparr>"
    and leng2: "length g2 = Suc (length ?g1)" and g2a: "g2 ! ?a = ?g1 ! ?a"
    using L2 by blast+
  \<comment> \<open>the arrays the loads returned lie above it\<close>
  have above1: "case r1 of None \<Rightarrow> True | Some d \<Rightarrow> base d \<noteq> ?a"
    using r1 len1 by simp
  have above2: "case r2 of None \<Rightarrow> True | Some d \<Rightarrow> base d \<noteq> ?a"
    using r2 ov leng1 len1 by simp
  let ?g2 = "overwrite (overwrite g2 r1 junk1) r2 junk2"
  have ov': "?g2 ! ?a = g2 ! ?a" "length ?g2 = length g2"
    using overwrite_other [OF above2, of "overwrite g2 r1 junk1" junk2]
      overwrite_other [OF above1, of g2 junk1] by simp_all
  have a3: "?a < length ?g2" using ov' leng2 a2 by simp
  have l3: "length (?g2 ! ?a) = lenBytes v" using ov' g2a l2 by simp
  note L3 = LoadAccepted_private [OF sl a3 l3 assms(5)]
  have three: "q3 = p" "contents g3 r3 = contents h v"
    using L3 m1 priv ov' g2a ov g1a by auto
  show ?thesis
    using one two three by (simp add: LoadPromised_SavePromised)
qed

text \<open>
  The value \<open>[2, 3]\<close>, a window into the caller's array \<open>[1, 2, 3]\<close>, is saved and loaded;
  the caller then fills its array with 9s and loads again; then the arrays of the two
  returned slices are overwritten. Every load yields \<open>[2, 3]\<close>.
\<close>

theorem MemoryStorage_round_trip_witness:
  "valid ex_heap ex_value
   \<and> contents ex_heap ex_value = [2, 3]
   \<and> SaveAccepted NewMemoryStorage ex_heap ex_pn ex_value = (ex_saved, [[1, 2, 3], [2, 3]])
   \<and> LoadAccepted ex_saved [[1, 2, 3], [2, 3]] =
       (ex_pn, Some \<lparr>base = 2, off = 0, slen = 2\<rparr>, [[1, 2, 3], [2, 3], [2, 3]])
   \<and> LoadAccepted ex_saved (overwrite [[1, 2, 3], [2, 3], [2, 3]] ex_value [9, 9, 9]) =
       (ex_pn, Some \<lparr>base = 3, off = 0, slen = 2\<rparr>, [[9, 9, 9], [2, 3], [2, 3], [2, 3]])
   \<and> LoadAccepted ex_saved
         (overwrite (overwrite [[9, 9, 9], [2, 3], [2, 3], [2, 3]]
            (Some \<lparr>base = 2, off = 0, slen = 2\<rparr>) [7, 7])
            (Some \<lparr>base = 3, off = 0, slen = 2\<rparr>) [8]) =
       (ex_pn, Some \<lparr>base = 4, off = 0, slen = 2\<rparr>, [[9, 9, 9], [2, 3], [7, 7], [8], [2, 3]])
   \<and> contents [[9, 9, 9], [2, 3], [7, 7], [8], [2, 3]] (Some \<lparr>base = 4, off = 0, slen = 2\<rparr>) = [2, 3]"
  using MemoryStorage_round_trip [of ex_heap ex_value NewMemoryStorage ex_pn
      ex_saved "[[1, 2, 3], [2, 3]]"
      ex_pn "Some \<lparr>base = 2, off = 0, slen = 2\<rparr>" "[[1, 2, 3], [2, 3], [2, 3]]"
      "[9, 9, 9]" ex_pn "Some \<lparr>base = 3, off = 0, slen = 2\<rparr>" "[[9, 9, 9], [2, 3], [2, 3], [2, 3]]"
      "[7, 7]" "[8]" ex_pn "Some \<lparr>base = 4, off = 0, slen = 2\<rparr>"
      "[[9, 9, 9], [2, 3], [7, 7], [8], [2, 3]]"]
  by (simp add: valid_def ex_heap_def ex_value_def ex_pn_def ex_saved_def NewMemoryStorage_def
        SaveAccepted_def LoadAccepted_def makeBytes_def copyBytes_def lenBytes_def contents_def
        overwrite_def)

text \<open>
  C10. After \<^verbatim>\<open>Close\<close>, whatever was saved is gone: \<^verbatim>\<open>LoadPromised\<close> returns the zero proposal
  number, and \<^verbatim>\<open>LoadAccepted\<close> returns the zero proposal number with an empty value (a slice
  of length 0 with no bytes). \<^verbatim>\<open>Close\<close> does what \<^verbatim>\<open>Reset\<close> does.
\<close>

theorem Close_erases:
  "LoadPromised (Close m) = zeroProposal
   \<and> fst (LoadAccepted (Close m) h) = zeroProposal
   \<and> contents (snd (snd (LoadAccepted (Close m) h))) (fst (snd (LoadAccepted (Close m) h))) = []
   \<and> lenBytes (fst (snd (LoadAccepted (Close m) h))) = 0
   \<and> Close m = Reset m"
  by (simp add: Close_def Reset_def LoadPromised_def LoadAccepted_def makeBytes_def copyBytes_def
        lenBytes_def contents_def)

subsection \<open>The quorum loops, one step at a time\<close>

declare phase1_loop.simps [simp del] phase2_loop.simps [simp del]

lemma okPromises_append: "okPromises pn (xs @ ys) = okPromises pn xs @ okPromises pn ys"
  by (induction pn xs rule: okPromises.induct) auto

lemma okAccepteds_append: "okAccepteds pn (xs @ ys) = okAccepteds pn xs @ okAccepteds pn ys"
  by (induction pn xs rule: okAccepteds.induct) auto

lemma received_append: "inbox t = cs @ inbox t' \<Longrightarrow> received t t' = cs"
  by (simp add: received_def)


lemma Receive_Nil: "inbox t = [] \<Longrightarrow> Receive t = (Inl ErrClosed, t)"
  by (simp add: Receive_def)

lemma Receive_Cons: "inbox t = r # rs \<Longrightarrow> Receive t = (r, t\<lparr>inbox := rs\<rparr>)"
  by (simp add: Receive_def)

lemma phase1_loop_done: "\<not> c < quorumSize p \<Longrightarrow> phase1_loop p c t = (None, p, t)"
  by (subst phase1_loop.simps) simp

lemma phase1_loop_closed:
  "c < quorumSize p \<Longrightarrow> inbox t = [] \<Longrightarrow> phase1_loop p c t = (Some ErrClosed, p, t)"
  by (subst phase1_loop.simps) (simp add: Receive_Nil)

lemma phase1_loop_error:
  "c < quorumSize p \<Longrightarrow> inbox t = Inl e # rs \<Longrightarrow>
     phase1_loop p c t = (Some e, p, t\<lparr>inbox := rs\<rparr>)"
  by (subst phase1_loop.simps) (simp add: Receive_Cons)

lemma phase1_loop_promise:
  "c < quorumSize p \<Longrightarrow> inbox t = Inr (Val (PromiseMsg pr)) # rs \<Longrightarrow>
     phase1_loop p c t =
       (if \<not> Equal (promProposalNumber pr) (currentProposal p)
        then phase1_loop p c (t\<lparr>inbox := rs\<rparr>)
        else if \<not> promOK pr
        then (Some ErrRejected, handleRejection p (promAcceptedProposal pr), t\<lparr>inbox := rs\<rparr>)
        else phase1_loop (p\<lparr>promise := promise p @ [pr]\<rparr>) (c + 1) (t\<lparr>inbox := rs\<rparr>))"
  by (subst phase1_loop.simps) (simp add: Receive_Cons)

lemma phase1_loop_other:
  "c < quorumSize p \<Longrightarrow> inbox t = Inr m # rs \<Longrightarrow> (\<And>pr. m \<noteq> Val (PromiseMsg pr)) \<Longrightarrow>
     phase1_loop p c t = phase1_loop p c (t\<lparr>inbox := rs\<rparr>)"
  by (subst phase1_loop.simps) (simp add: Receive_Cons split: message.splits payload.splits)

text \<open>
  A Phase 1 loop that ends with a quorum has appended to \<open>promise\<close> exactly the affirmative
  Promises for the current proposal among the messages it took, and changed nothing else.
\<close>

lemma phase1_loop_success:
  "inbox t = xs \<Longrightarrow> phase1_loop p c t = (None, p', t') \<Longrightarrow>
     \<exists>cs. xs = cs @ inbox t' \<and> outbox t' = outbox t
        \<and> p' = p\<lparr>promise := promise p @ okPromises (currentProposal p) cs\<rparr>
        \<and> c + int (length (okPromises (currentProposal p) cs)) = max c (quorumSize p)"
proof (induction xs arbitrary: p c t)
  case Nil
  then show ?case
    by (cases "c < quorumSize p") (auto simp: phase1_loop_done phase1_loop_closed)
next
  case (Cons x xs)
  show ?case
  proof (cases "c < quorumSize p")
    case False
    with Cons.prems show ?thesis
      by (auto simp: phase1_loop_done)
  next
    case True
    let ?t = "t\<lparr>inbox := xs\<rparr>"
    have it: "inbox ?t = xs" "outbox ?t = outbox t" by simp_all
    show ?thesis
    proof (cases "\<exists>pr. x = Inr (Val (PromiseMsg pr)) \<and> Equal (promProposalNumber pr) (currentProposal p)")
      case True
      then obtain pr where x: "x = Inr (Val (PromiseMsg pr))"
        and eq: "Equal (promProposalNumber pr) (currentProposal p)" by blast
      from Cons.prems \<open>c < quorumSize p\<close> x eq
      have ok: "promOK pr"
        and rec: "phase1_loop (p\<lparr>promise := promise p @ [pr]\<rparr>) (c + 1) ?t = (None, p', t')"
        by (auto simp: phase1_loop_promise split: if_splits)
      from Cons.IH [OF it(1) rec] obtain cs where
        cs: "xs = cs @ inbox t'" "outbox t' = outbox t"
          "p' = p\<lparr>promise := promise p @ pr # okPromises (currentProposal p) cs\<rparr>"
          "c + 1 + int (length (okPromises (currentProposal p) cs)) = max (c + 1) (quorumSize p)"
        by auto
      have "x # xs = (x # cs) @ inbox t'" using cs by simp
      moreover have "okPromises (currentProposal p) (x # cs) = pr # okPromises (currentProposal p) cs"
        using x eq ok by simp
      moreover have "max (c + 1) (quorumSize p) = max c (quorumSize p)"
        using \<open>c < quorumSize p\<close> by simp
      ultimately show ?thesis
        using cs by (intro exI [of _ "x # cs"]) simp
    next
      case False
      have skip: "okPromises (currentProposal p) (x # cs) = okPromises (currentProposal p) cs" for cs
        using False by (cases "(currentProposal p, x # cs)" rule: okPromises.cases) auto
      have rec: "phase1_loop p c ?t = (None, p', t')"
      proof (cases x)
        case (Inl e)
        with Cons.prems \<open>c < quorumSize p\<close> show ?thesis
          by (simp add: phase1_loop_error)
      next
        case (Inr m)
        show ?thesis
        proof (cases "\<exists>pr. m = Val (PromiseMsg pr)")
          case True
          with Inr False Cons.prems \<open>c < quorumSize p\<close> show ?thesis
            by (auto simp: phase1_loop_promise)
        next
          case False
          with Inr Cons.prems \<open>c < quorumSize p\<close> show ?thesis
            by (simp add: phase1_loop_other)
        qed
      qed
      from Cons.IH [OF it(1) rec] obtain cs where
        cs: "xs = cs @ inbox t'" "outbox t' = outbox t"
          "p' = p\<lparr>promise := promise p @ okPromises (currentProposal p) cs\<rparr>"
          "c + int (length (okPromises (currentProposal p) cs)) = max c (quorumSize p)"
        by auto
      show ?thesis
        using cs skip by (intro exI [of _ "x # cs"]) simp
    qed
  qed
qed

text \<open>
  Whatever the outcome, the Phase 1 loop touches only \<open>promise\<close> and \<open>highestRound\<close>, and
  \<open>highestRound\<close> does not go down (signed).
\<close>

lemma phase1_loop_frame:
  "inbox t = xs \<Longrightarrow> phase1_loop p c t = (r, p', t') \<Longrightarrow>
     idP p' = idP p \<and> quorumSize p' = quorumSize p \<and> currentProposal p' = currentProposal p
     \<and> originalValue p' = originalValue p \<and> valueToPropose p' = valueToPropose p
     \<and> (highestRound p' = highestRound p \<or> highestRound p <s highestRound p')
     \<and> outbox t' = outbox t \<and> (\<exists>cs. xs = cs @ inbox t')"
proof (induction xs arbitrary: p c t)
  case Nil
  then show ?case
    by (cases "c < quorumSize p") (auto simp: phase1_loop_done phase1_loop_closed)
next
  case (Cons x xs)
  show ?case
  proof (cases "c < quorumSize p")
    case False
    with Cons.prems show ?thesis
      by (auto simp: phase1_loop_done)
  next
    case True
    let ?t = "t\<lparr>inbox := xs\<rparr>"
    have it: "inbox ?t = xs" by simp
    note IH = Cons.IH [OF it]
    show ?thesis
    proof (cases x)
      case (Inl e)
      with Cons.prems True show ?thesis
        by (auto simp: phase1_loop_error)
    next
      case (Inr m)
      show ?thesis
      proof (cases "\<exists>pr. m = Val (PromiseMsg pr)")
        case False
        with Inr Cons.prems True have "phase1_loop p c ?t = (r, p', t')"
          by (simp add: phase1_loop_other)
        from IH [OF this] show ?thesis
          by (auto intro: exI [of _ "x # cs" for cs])
      next
        case True
        then obtain pr where m: "m = Val (PromiseMsg pr)" by blast
        note step = phase1_loop_promise [OF \<open>c < quorumSize p\<close>, of t pr xs]
        consider (skip) "\<not> Equal (promProposalNumber pr) (currentProposal p)"
          | (rej) "Equal (promProposalNumber pr) (currentProposal p)" "\<not> promOK pr"
          | (ok) "Equal (promProposalNumber pr) (currentProposal p)" "promOK pr"
          by blast
        then show ?thesis
        proof cases
          case skip
          with step Inr m Cons.prems have "phase1_loop p c ?t = (r, p', t')" by simp
          from IH [OF this] show ?thesis
            by (auto intro: exI [of _ "x # cs" for cs])
        next
          case rej
          with step Inr m Cons.prems
          have "p' = handleRejection p (promAcceptedProposal pr)" "t' = ?t" by simp_all
          then show ?thesis
            by (auto simp: handleRejection_def)
        next
          case ok
          with step Inr m Cons.prems
          have "phase1_loop (p\<lparr>promise := promise p @ [pr]\<rparr>) (c + 1) ?t = (r, p', t')" by simp
          from IH [OF this] show ?thesis
            by (auto intro: exI [of _ "x # cs" for cs])
        qed
      qed
    qed
  qed
qed

lemma phase2_loop_done: "\<not> c < quorumSize p \<Longrightarrow> phase2_loop p c t = (None, t)"
  by (subst phase2_loop.simps) simp

lemma phase2_loop_closed:
  "c < quorumSize p \<Longrightarrow> inbox t = [] \<Longrightarrow> phase2_loop p c t = (Some ErrClosed, t)"
  by (subst phase2_loop.simps) (simp add: Receive_Nil)

lemma phase2_loop_error:
  "c < quorumSize p \<Longrightarrow> inbox t = Inl e # rs \<Longrightarrow>
     phase2_loop p c t = (Some e, t\<lparr>inbox := rs\<rparr>)"
  by (subst phase2_loop.simps) (simp add: Receive_Cons)

lemma phase2_loop_accepted:
  "c < quorumSize p \<Longrightarrow> inbox t = Inr (Val (AcceptedMsg a)) # rs \<Longrightarrow>
     phase2_loop p c t =
       (if \<not> Equal (acdProposalNumber a) (currentProposal p)
        then phase2_loop p c (t\<lparr>inbox := rs\<rparr>)
        else if \<not> acdOK a
        then (Some ErrRejected, t\<lparr>inbox := rs\<rparr>)
        else phase2_loop p (c + 1) (t\<lparr>inbox := rs\<rparr>))"
  by (subst phase2_loop.simps) (simp add: Receive_Cons)

lemma phase2_loop_other:
  "c < quorumSize p \<Longrightarrow> inbox t = Inr m # rs \<Longrightarrow> (\<And>a. m \<noteq> Val (AcceptedMsg a)) \<Longrightarrow>
     phase2_loop p c t = phase2_loop p c (t\<lparr>inbox := rs\<rparr>)"
  by (subst phase2_loop.simps) (simp add: Receive_Cons split: message.splits payload.splits)

lemma phase2_loop_frame:
  "inbox t = xs \<Longrightarrow> phase2_loop p c t = (r, t') \<Longrightarrow>
     outbox t' = outbox t \<and>
     (\<exists>cs. xs = cs @ inbox t' \<and>
        (r = None \<longrightarrow> c + int (length (okAccepteds (currentProposal p) cs)) = max c (quorumSize p)))"
proof (induction xs arbitrary: c t)
  case Nil
  then show ?case
    by (cases "c < quorumSize p") (auto simp: phase2_loop_done phase2_loop_closed)
next
  case (Cons x xs)
  show ?case
  proof (cases "c < quorumSize p")
    case False
    with Cons.prems show ?thesis
      by (auto simp: phase2_loop_done)
  next
    case True
    let ?t = "t\<lparr>inbox := xs\<rparr>"
    have it: "inbox ?t = xs" by simp
    note IH = Cons.IH [OF it]
    show ?thesis
    proof (cases "\<exists>a. x = Inr (Val (AcceptedMsg a)) \<and> Equal (acdProposalNumber a) (currentProposal p)")
      case True
      then obtain a where x: "x = Inr (Val (AcceptedMsg a))"
        and eq: "Equal (acdProposalNumber a) (currentProposal p)" by blast
      note step = phase2_loop_accepted [OF \<open>c < quorumSize p\<close>, of t a xs]
      show ?thesis
      proof (cases "acdOK a")
        case False
        with step x eq Cons.prems have "r = Some ErrRejected" "t' = ?t" by simp_all
        then show ?thesis by auto
      next
        case True
        with step x eq Cons.prems have "phase2_loop p (c + 1) ?t = (r, t')" by simp
        from IH [OF this] obtain cs where
          cs: "outbox t' = outbox t" "xs = cs @ inbox t'"
            "r = None \<longrightarrow> c + 1 + int (length (okAccepteds (currentProposal p) cs)) = max (c + 1) (quorumSize p)"
          by auto
        have "okAccepteds (currentProposal p) (x # cs) = a # okAccepteds (currentProposal p) cs"
          using x eq True by simp
        moreover have "max (c + 1) (quorumSize p) = max c (quorumSize p)"
          using \<open>c < quorumSize p\<close> by simp
        ultimately show ?thesis
          using cs by (intro conjI exI [of _ "x # cs"]) auto
      qed
    next
      case False
      have skip: "okAccepteds (currentProposal p) (x # cs) = okAccepteds (currentProposal p) cs" for cs
        using False by (cases "(currentProposal p, x # cs)" rule: okAccepteds.cases) auto
      show ?thesis
      proof (cases x)
        case (Inl e)
        with Cons.prems \<open>c < quorumSize p\<close> show ?thesis
          by (auto simp: phase2_loop_error)
      next
        case (Inr m)
        have "phase2_loop p c ?t = (r, t')"
        proof (cases "\<exists>a. m = Val (AcceptedMsg a)")
          case True
          with Inr False Cons.prems \<open>c < quorumSize p\<close> show ?thesis
            by (auto simp: phase2_loop_accepted)
        next
          case False
          with Inr Cons.prems \<open>c < quorumSize p\<close> show ?thesis
            by (simp add: phase2_loop_other)
        qed
        from IH [OF this] obtain cs where
          cs: "outbox t' = outbox t" "xs = cs @ inbox t'"
            "r = None \<longrightarrow> c + int (length (okAccepteds (currentProposal p) cs)) = max c (quorumSize p)"
          by auto
        show ?thesis
          using cs skip by (intro conjI exI [of _ "x # cs"]) simp_all
      qed
    qed
  qed
qed


lemma runPhase1_success:
  assumes "runPhase1 p t = (None, p', t')"
  shows "promise p' = promise p @ okPromises (currentProposal p) (received t t')"
    and "int (length (okPromises (currentProposal p) (received t t'))) = max 0 (quorumSize p)"
proof -
  let ?t1 = "Broadcast t (Val (PrepareMsg \<lparr>prepProposalNumber = currentProposal p, prepFrom = idP p\<rparr>))"
  from assms obtain q where L: "phase1_loop p 0 ?t1 = (None, q, t')"
    by (auto simp: runPhase1_def Let_def split: prod.splits option.splits)
  have p': "promise p' = promise q"
    using assms L by (auto simp: runPhase1_def Let_def)
  have ib: "inbox ?t1 = inbox t" by (simp add: Broadcast_def)
  from phase1_loop_success [OF ib L] obtain cs where
    cs: "inbox t = cs @ inbox t'"
      "q = p\<lparr>promise := promise p @ okPromises (currentProposal p) cs\<rparr>"
      "0 + int (length (okPromises (currentProposal p) cs)) = max 0 (quorumSize p)"
    by blast
  have "received t t' = cs" using cs(1) by (rule received_append)
  with cs p' show "promise p' = promise p @ okPromises (currentProposal p) (received t t')"
    and "int (length (okPromises (currentProposal p) (received t t'))) = max 0 (quorumSize p)"
    by simp_all
qed

lemma runPhase2_frame:
  assumes "runPhase2 p t = (r, p', t')"
  shows "p' = p"
    and "r = None \<Longrightarrow> int (length (okAccepteds (currentProposal p) (received t t'))) = max 0 (quorumSize p)"
proof -
  let ?t1 = "Broadcast t (Val (AcceptMsg \<lparr>accProposalNumber = currentProposal p, accValue = valueToPropose p, accFrom = idP p\<rparr>))"
  obtain r1 t1 where L: "phase2_loop p 0 ?t1 = (r1, t1)" by (cases "phase2_loop p 0 ?t1")
  from assms L show "p' = p"
    by (auto simp: runPhase2_def Let_def split: option.splits)
  have ib: "inbox ?t1 = inbox t" by (simp add: Broadcast_def)
  from phase2_loop_frame [OF ib L] obtain cs where
    cs: "inbox t = cs @ inbox t1"
      "r1 = None \<longrightarrow> 0 + int (length (okAccepteds (currentProposal p) cs)) = max 0 (quorumSize p)"
    by blast
  assume "r = None"
  with assms L have "r1 = None" "inbox t' = inbox t1"
    by (auto simp: runPhase2_def Let_def Broadcast_def split: option.splits)
  with cs have "received t t' = cs" by (simp add: received_def)
  with cs \<open>r1 = None\<close>
  show "int (length (okAccepteds (currentProposal p) (received t t'))) = max 0 (quorumSize p)"
    by simp
qed

subsection \<open>The quorum loops, along a stretch of the inbox\<close>

text \<open>
  Over a quiet stretch that does not complete the quorum, the Phase 1 loop collects and
  counts every affirmative Promise for the current proposal, and goes on with the rest.
\<close>

lemma phase1_loop_prefix:
  "inbox t = pre @ rest \<Longrightarrow> quietPromises (currentProposal p) pre \<Longrightarrow>
   c + int (length (okPromises (currentProposal p) pre)) < quorumSize p \<Longrightarrow>
   phase1_loop p c t =
     phase1_loop (p\<lparr>promise := promise p @ okPromises (currentProposal p) pre\<rparr>)
       (c + int (length (okPromises (currentProposal p) pre))) (t\<lparr>inbox := rest\<rparr>)"
proof (induction pre arbitrary: p c t)
  case Nil
  then have "rest = inbox t" by simp
  then show ?case by simp
next
  case (Cons x pre)
  let ?pn = "currentProposal p"
  let ?t = "t\<lparr>inbox := pre @ rest\<rparr>"
  have c: "c < quorumSize p" using Cons.prems(3) by linarith
  have ib: "inbox t = x # (pre @ rest)" using Cons.prems(1) by simp
  have it: "inbox ?t = pre @ rest" by simp
  have tt: "?t\<lparr>inbox := rest\<rparr> = t\<lparr>inbox := rest\<rparr>" by simp
  show ?case
  proof (cases "\<exists>pr. x = Inr (Val (PromiseMsg pr)) \<and> Equal (promProposalNumber pr) ?pn")
    case True
    then obtain pr where x: "x = Inr (Val (PromiseMsg pr))"
      and eq: "Equal (promProposalNumber pr) ?pn" by blast
    from Cons.prems(2) x eq have ok: "promOK pr" and q: "quietPromises ?pn pre"
      by (auto split: if_splits)
    let ?p = "p\<lparr>promise := promise p @ [pr]\<rparr>"
    have oks: "okPromises ?pn (x # pre) = pr # okPromises ?pn pre"
      using x eq ok by simp
    have step: "phase1_loop p c t = phase1_loop ?p (c + 1) ?t"
      using phase1_loop_promise [OF c ib [unfolded x]] eq ok by simp
    have cnt: "c + 1 + int (length (okPromises (currentProposal ?p) pre)) < quorumSize ?p"
      using Cons.prems(3) oks by simp
    have q': "quietPromises (currentProposal ?p) pre" using q by simp
    from Cons.IH [OF it q' cnt] step oks show ?thesis
      by (simp add: tt add.assoc)
  next
    case False
    have oks: "okPromises ?pn (x # pre) = okPromises ?pn pre"
      using False by (cases "(?pn, x # pre)" rule: okPromises.cases) auto
    have q: "quietPromises ?pn pre"
      using Cons.prems(2) by (cases "(?pn, x # pre)" rule: quietPromises.cases) (auto split: if_splits)
    have step: "phase1_loop p c t = phase1_loop p c ?t"
    proof (cases x)
      case (Inl e)
      with Cons.prems(2) show ?thesis by simp
    next
      case (Inr m)
      show ?thesis
      proof (cases "\<exists>pr. m = Val (PromiseMsg pr)")
        case True
        with Inr False show ?thesis
          using phase1_loop_promise [OF c, of t _ "pre @ rest"] ib by auto
      next
        case False
        with Inr show ?thesis
          using phase1_loop_other [OF c, of t m "pre @ rest"] ib by simp
      qed
    qed
    have cnt: "c + int (length (okPromises ?pn pre)) < quorumSize p"
      using Cons.prems(3) oks by simp
    from Cons.IH [OF it q cnt] step oks show ?thesis
      by (simp add: tt)
  qed
qed

lemma phase2_loop_prefix:
  "inbox t = pre @ rest \<Longrightarrow> quietAccepteds (currentProposal p) pre \<Longrightarrow>
   c + int (length (okAccepteds (currentProposal p) pre)) < quorumSize p \<Longrightarrow>
   phase2_loop p c t =
     phase2_loop p (c + int (length (okAccepteds (currentProposal p) pre))) (t\<lparr>inbox := rest\<rparr>)"
proof (induction pre arbitrary: c t)
  case Nil
  then have "rest = inbox t" by simp
  then show ?case by simp
next
  case (Cons x pre)
  let ?pn = "currentProposal p"
  let ?t = "t\<lparr>inbox := pre @ rest\<rparr>"
  have c: "c < quorumSize p" using Cons.prems(3) by linarith
  have ib: "inbox t = x # (pre @ rest)" using Cons.prems(1) by simp
  have it: "inbox ?t = pre @ rest" by simp
  have tt: "?t\<lparr>inbox := rest\<rparr> = t\<lparr>inbox := rest\<rparr>" by simp
  show ?case
  proof (cases "\<exists>a. x = Inr (Val (AcceptedMsg a)) \<and> Equal (acdProposalNumber a) ?pn")
    case True
    then obtain a where x: "x = Inr (Val (AcceptedMsg a))"
      and eq: "Equal (acdProposalNumber a) ?pn" by blast
    from Cons.prems(2) x eq have ok: "acdOK a" and q: "quietAccepteds ?pn pre"
      by (auto split: if_splits)
    have oks: "okAccepteds ?pn (x # pre) = a # okAccepteds ?pn pre"
      using x eq ok by simp
    have step: "phase2_loop p c t = phase2_loop p (c + 1) ?t"
      using phase2_loop_accepted [OF c ib [unfolded x]] eq ok by simp
    have cnt: "c + 1 + int (length (okAccepteds ?pn pre)) < quorumSize p"
      using Cons.prems(3) oks by simp
    from Cons.IH [OF it q cnt] step oks show ?thesis
      by (simp add: tt add.assoc)
  next
    case False
    have oks: "okAccepteds ?pn (x # pre) = okAccepteds ?pn pre"
      using False by (cases "(?pn, x # pre)" rule: okAccepteds.cases) auto
    have q: "quietAccepteds ?pn pre"
      using Cons.prems(2) by (cases "(?pn, x # pre)" rule: quietAccepteds.cases) (auto split: if_splits)
    have step: "phase2_loop p c t = phase2_loop p c ?t"
    proof (cases x)
      case (Inl e)
      with Cons.prems(2) show ?thesis by simp
    next
      case (Inr m)
      show ?thesis
      proof (cases "\<exists>a. m = Val (AcceptedMsg a)")
        case True
        with Inr False show ?thesis
          using phase2_loop_accepted [OF c, of t _ "pre @ rest"] ib by auto
      next
        case False
        with Inr show ?thesis
          using phase2_loop_other [OF c, of t m "pre @ rest"] ib by simp
      qed
    qed
    have cnt: "c + int (length (okAccepteds ?pn pre)) < quorumSize p"
      using Cons.prems(3) oks by simp
    from Cons.IH [OF it q cnt] step oks show ?thesis
      by (simp add: tt)
  qed
qed

text \<open>
  How Phase 1 ends, by what it receives. An inbox has one of four shapes: a quiet stretch
  followed by the Promise that completes the quorum, by a rejecting Promise for the current
  proposal, by a receive error, or by nothing more (the transport then reports that it is
  closed).
\<close>

lemma runPhase1_reaches_quorum:
  assumes "inbox t = pre @ Inr (Val (PromiseMsg pr)) # rest"
    and "quietPromises (currentProposal p) pre"
    and "Equal (promProposalNumber pr) (currentProposal p)" and "promOK pr"
    and "int (length (okPromises (currentProposal p) pre)) + 1 = quorumSize p"
  shows "runPhase1 p t =
     (None,
      p\<lparr>promise := promise p @ okPromises (currentProposal p) pre @ [pr],
        valueToPropose :=
          snd (adopt_loop (promise p @ okPromises (currentProposal p) pre @ [pr]) zeroProposal
                 (valueToPropose p))\<rparr>,
      \<lparr>inbox = rest, outbox = outbox t @ [Broadcasted (Val (PrepareMsg \<lparr>prepProposalNumber = currentProposal p, prepFrom = idP p\<rparr>))]\<rparr>)"
proof -
  let ?pn = "currentProposal p"
  let ?t1 = "Broadcast t (Val (PrepareMsg \<lparr>prepProposalNumber = currentProposal p, prepFrom = idP p\<rparr>))"
  let ?q = "p\<lparr>promise := promise p @ okPromises ?pn pre\<rparr>"
  let ?n = "int (length (okPromises ?pn pre))"
  let ?t2 = "?t1\<lparr>inbox := Inr (Val (PromiseMsg pr)) # rest\<rparr>"
  have ib: "inbox ?t1 = pre @ Inr (Val (PromiseMsg pr)) # rest"
    using assms(1) by (simp add: Broadcast_def)
  have lt: "0 + ?n < quorumSize p" using assms(5) by simp
  have A: "phase1_loop p 0 ?t1 = phase1_loop ?q (0 + ?n) ?t2"
    by (rule phase1_loop_prefix [OF ib assms(2) lt])
  have lt': "?n < quorumSize ?q" using assms(5) by simp
  have ib2: "inbox ?t2 = Inr (Val (PromiseMsg pr)) # rest" by simp
  have B: "phase1_loop ?q ?n ?t2 =
      phase1_loop (?q\<lparr>promise := promise ?q @ [pr]\<rparr>) (?n + 1) (?t2\<lparr>inbox := rest\<rparr>)"
    using phase1_loop_promise [OF lt' ib2] assms(3,4) by simp
  have C: "phase1_loop (?q\<lparr>promise := promise ?q @ [pr]\<rparr>) (?n + 1) (?t2\<lparr>inbox := rest\<rparr>) =
      (None, ?q\<lparr>promise := promise ?q @ [pr]\<rparr>, ?t2\<lparr>inbox := rest\<rparr>)"
    using assms(5) by (simp add: phase1_loop_done)
  from A B C have "phase1_loop p 0 ?t1 =
      (None, ?q\<lparr>promise := promise ?q @ [pr]\<rparr>, ?t2\<lparr>inbox := rest\<rparr>)" by simp
  then show ?thesis
    by (simp add: runPhase1_def Let_def Broadcast_def)
qed

lemma runPhase1_rejected:
  assumes "inbox t = pre @ Inr (Val (PromiseMsg pr)) # rest"
    and "quietPromises (currentProposal p) pre"
    and "Equal (promProposalNumber pr) (currentProposal p)" and "\<not> promOK pr"
    and "int (length (okPromises (currentProposal p) pre)) < quorumSize p"
  shows "runPhase1 p t =
     (Some ErrRejected,
      handleRejection (p\<lparr>promise := promise p @ okPromises (currentProposal p) pre\<rparr>)
        (promAcceptedProposal pr),
      \<lparr>inbox = rest, outbox = outbox t @ [Broadcasted (Val (PrepareMsg \<lparr>prepProposalNumber = currentProposal p, prepFrom = idP p\<rparr>))]\<rparr>)"
proof -
  let ?pn = "currentProposal p"
  let ?t1 = "Broadcast t (Val (PrepareMsg \<lparr>prepProposalNumber = currentProposal p, prepFrom = idP p\<rparr>))"
  let ?q = "p\<lparr>promise := promise p @ okPromises ?pn pre\<rparr>"
  let ?n = "int (length (okPromises ?pn pre))"
  let ?t2 = "?t1\<lparr>inbox := Inr (Val (PromiseMsg pr)) # rest\<rparr>"
  have ib: "inbox ?t1 = pre @ Inr (Val (PromiseMsg pr)) # rest"
    using assms(1) by (simp add: Broadcast_def)
  have lt: "0 + ?n < quorumSize p" using assms(5) by simp
  have A: "phase1_loop p 0 ?t1 = phase1_loop ?q (0 + ?n) ?t2"
    by (rule phase1_loop_prefix [OF ib assms(2) lt])
  have lt': "?n < quorumSize ?q" using assms(5) by simp
  have ib2: "inbox ?t2 = Inr (Val (PromiseMsg pr)) # rest" by simp
  have B: "phase1_loop ?q ?n ?t2 =
      (Some ErrRejected, handleRejection ?q (promAcceptedProposal pr), ?t2\<lparr>inbox := rest\<rparr>)"
    using phase1_loop_promise [OF lt' ib2] assms(3,4) by simp
  from A B have "phase1_loop p 0 ?t1 =
      (Some ErrRejected, handleRejection ?q (promAcceptedProposal pr), ?t2\<lparr>inbox := rest\<rparr>)" by simp
  then show ?thesis
    by (simp add: runPhase1_def Let_def Broadcast_def)
qed

lemma runPhase1_receive_error:
  assumes "inbox t = pre @ Inl e # rest"
    and "quietPromises (currentProposal p) pre"
    and "int (length (okPromises (currentProposal p) pre)) < quorumSize p"
  shows "runPhase1 p t =
     (Some e, p\<lparr>promise := promise p @ okPromises (currentProposal p) pre\<rparr>,
      \<lparr>inbox = rest, outbox = outbox t @ [Broadcasted (Val (PrepareMsg \<lparr>prepProposalNumber = currentProposal p, prepFrom = idP p\<rparr>))]\<rparr>)"
proof -
  let ?pn = "currentProposal p"
  let ?t1 = "Broadcast t (Val (PrepareMsg \<lparr>prepProposalNumber = currentProposal p, prepFrom = idP p\<rparr>))"
  let ?q = "p\<lparr>promise := promise p @ okPromises ?pn pre\<rparr>"
  let ?n = "int (length (okPromises ?pn pre))"
  let ?t2 = "?t1\<lparr>inbox := Inl e # rest\<rparr>"
  have ib: "inbox ?t1 = pre @ Inl e # rest"
    using assms(1) by (simp add: Broadcast_def)
  have lt: "0 + ?n < quorumSize p" using assms(3) by simp
  have A: "phase1_loop p 0 ?t1 = phase1_loop ?q (0 + ?n) ?t2"
    by (rule phase1_loop_prefix [OF ib assms(2) lt])
  have lt': "?n < quorumSize ?q" using assms(3) by simp
  have ib2: "inbox ?t2 = Inl e # rest" by simp
  have B: "phase1_loop ?q ?n ?t2 = (Some e, ?q, ?t2\<lparr>inbox := rest\<rparr>)"
    by (rule phase1_loop_error [OF lt' ib2])
  from A B have "phase1_loop p 0 ?t1 = (Some e, ?q, ?t2\<lparr>inbox := rest\<rparr>)" by simp
  then show ?thesis
    by (simp add: runPhase1_def Let_def Broadcast_def)
qed

lemma runPhase1_starved:
  assumes "quietPromises (currentProposal p) (inbox t)"
    and "int (length (okPromises (currentProposal p) (inbox t))) < quorumSize p"
  shows "runPhase1 p t =
     (Some ErrClosed, p\<lparr>promise := promise p @ okPromises (currentProposal p) (inbox t)\<rparr>,
      \<lparr>inbox = [], outbox = outbox t @ [Broadcasted (Val (PrepareMsg \<lparr>prepProposalNumber = currentProposal p, prepFrom = idP p\<rparr>))]\<rparr>)"
proof -
  let ?pn = "currentProposal p"
  let ?t1 = "Broadcast t (Val (PrepareMsg \<lparr>prepProposalNumber = currentProposal p, prepFrom = idP p\<rparr>))"
  let ?q = "p\<lparr>promise := promise p @ okPromises ?pn (inbox t)\<rparr>"
  let ?n = "int (length (okPromises ?pn (inbox t)))"
  let ?t2 = "?t1\<lparr>inbox := []\<rparr>"
  have ib: "inbox ?t1 = inbox t @ []" by (simp add: Broadcast_def)
  have lt: "0 + ?n < quorumSize p" using assms(2) by simp
  have A: "phase1_loop p 0 ?t1 = phase1_loop ?q (0 + ?n) ?t2"
    by (rule phase1_loop_prefix [OF ib assms(1) lt])
  have lt': "?n < quorumSize ?q" using assms(2) by simp
  have ib2: "inbox ?t2 = []" by simp
  have B: "phase1_loop ?q ?n ?t2 = (Some ErrClosed, ?q, ?t2)"
    by (rule phase1_loop_closed [OF lt' ib2])
  from A B have "phase1_loop p 0 ?t1 = (Some ErrClosed, ?q, ?t2)" by simp
  then show ?thesis
    by (simp add: runPhase1_def Let_def Broadcast_def)
qed

text \<open>
  Whatever ends Phase 1, it has by then collected every affirmative Promise for the
  current proposal among the messages it took.
\<close>

lemma phase1_loop_collects:
  "inbox t = xs \<Longrightarrow> phase1_loop p c t = (r, p', t') \<Longrightarrow>
     \<exists>cs. xs = cs @ inbox t' \<and> promise p' = promise p @ okPromises (currentProposal p) cs"
proof (induction xs arbitrary: p c t)
  case Nil
  then show ?case
    by (cases "c < quorumSize p") (auto simp: phase1_loop_done phase1_loop_closed)
next
  case (Cons x xs)
  show ?case
  proof (cases "c < quorumSize p")
    case False
    with Cons.prems show ?thesis
      by (auto simp: phase1_loop_done)
  next
    case True
    let ?pn = "currentProposal p"
    let ?t = "t\<lparr>inbox := xs\<rparr>"
    have it: "inbox ?t = xs" by simp
    show ?thesis
    proof (cases "\<exists>pr. x = Inr (Val (PromiseMsg pr)) \<and> Equal (promProposalNumber pr) ?pn")
      case True
      then obtain pr where x: "x = Inr (Val (PromiseMsg pr))"
        and eq: "Equal (promProposalNumber pr) ?pn" by blast
      show ?thesis
      proof (cases "promOK pr")
        case False
        with Cons.prems True x eq \<open>c < quorumSize p\<close>
        have "p' = handleRejection p (promAcceptedProposal pr)" "t' = ?t"
          by (auto simp: phase1_loop_promise)
        then have "x # xs = [x] @ inbox t'" "promise p' = promise p @ okPromises ?pn [x]"
          using x eq False by (auto simp: handleRejection_def)
        then show ?thesis by blast
      next
        case ok: True
        let ?p = "p\<lparr>promise := promise p @ [pr]\<rparr>"
        from Cons.prems \<open>c < quorumSize p\<close> x eq ok
        have rec: "phase1_loop ?p (c + 1) ?t = (r, p', t')"
          by (auto simp: phase1_loop_promise)
        from Cons.IH [OF it rec] obtain cs where
          cs: "xs = cs @ inbox t'" "promise p' = promise ?p @ okPromises (currentProposal ?p) cs"
          by blast
        have "x # xs = (x # cs) @ inbox t'" using cs by simp
        moreover have "promise p' = promise p @ okPromises ?pn (x # cs)"
          using cs x eq ok by simp
        ultimately show ?thesis by blast
      qed
    next
      case False
      have skip: "okPromises ?pn (x # cs) = okPromises ?pn cs" for cs
        using False by (cases "(?pn, x # cs)" rule: okPromises.cases) auto
      show ?thesis
      proof (cases x)
        case (Inl e)
        with Cons.prems \<open>c < quorumSize p\<close> have "p' = p" "t' = ?t"
          by (auto simp: phase1_loop_error)
        then have "x # xs = [x] @ inbox t'" "promise p' = promise p @ okPromises ?pn [x]"
          using Inl by auto
        then show ?thesis by blast
      next
        case (Inr m)
        have rec: "phase1_loop p c ?t = (r, p', t')"
        proof (cases "\<exists>pr. m = Val (PromiseMsg pr)")
          case True
          with Inr False Cons.prems \<open>c < quorumSize p\<close> show ?thesis
            by (auto simp: phase1_loop_promise)
        next
          case False
          with Inr Cons.prems \<open>c < quorumSize p\<close> show ?thesis
            by (simp add: phase1_loop_other)
        qed
        from Cons.IH [OF it rec] obtain cs where
          cs: "xs = cs @ inbox t'" "promise p' = promise p @ okPromises ?pn cs"
          by blast
        have "x # xs = (x # cs) @ inbox t'" using cs by simp
        moreover have "promise p' = promise p @ okPromises ?pn (x # cs)"
          using cs skip by simp
        ultimately show ?thesis by blast
      qed
    qed
  qed
qed

lemma runPhase1_collects:
  assumes "runPhase1 p t = (r, p', t')"
  shows "promise p' = promise p @ okPromises (currentProposal p) (received t t')"
proof -
  let ?t1 = "Broadcast t (Val (PrepareMsg \<lparr>prepProposalNumber = currentProposal p, prepFrom = idP p\<rparr>))"
  obtain r1 q t1 where L: "phase1_loop p 0 ?t1 = (r1, q, t1)"
    by (cases "phase1_loop p 0 ?t1")
  have e: "promise p' = promise q" "t' = t1"
    using assms L by (auto simp: runPhase1_def Let_def split: option.splits)
  have ib: "inbox ?t1 = inbox t" by (simp add: Broadcast_def)
  from phase1_loop_collects [OF ib L] obtain cs where
    cs: "inbox t = cs @ inbox t1" "promise q = promise p @ okPromises (currentProposal p) cs"
    by blast
  have "received t t1 = cs" using cs(1) by (rule received_append)
  with cs e show ?thesis by simp
qed

text \<open>How Phase 2 ends, by what it receives; the shapes are those of Phase 1.\<close>

lemma runPhase2_reaches_quorum:
  assumes "inbox t = pre @ Inr (Val (AcceptedMsg a)) # rest"
    and "quietAccepteds (currentProposal p) pre"
    and "Equal (acdProposalNumber a) (currentProposal p)" and "acdOK a"
    and "int (length (okAccepteds (currentProposal p) pre)) + 1 = quorumSize p"
  shows "runPhase2 p t =
     (None, p,
      \<lparr>inbox = rest,
       outbox = outbox t @
         [Broadcasted (Val (AcceptMsg \<lparr>accProposalNumber = currentProposal p,
                  accValue = valueToPropose p, accFrom = idP p\<rparr>)),
          Broadcasted (Val (LearnMsg \<lparr>lrnProposalNumber = currentProposal p,
                  lrnValue = valueToPropose p, lrnFrom = idP p\<rparr>))]\<rparr>)"
proof -
  let ?pn = "currentProposal p"
  let ?t1 = "Broadcast t (Val (AcceptMsg \<lparr>accProposalNumber = currentProposal p,
               accValue = valueToPropose p, accFrom = idP p\<rparr>))"
  let ?n = "int (length (okAccepteds ?pn pre))"
  let ?t2 = "?t1\<lparr>inbox := Inr (Val (AcceptedMsg a)) # rest\<rparr>"
  have ib: "inbox ?t1 = pre @ Inr (Val (AcceptedMsg a)) # rest"
    using assms(1) by (simp add: Broadcast_def)
  have lt: "0 + ?n < quorumSize p" using assms(5) by simp
  have A: "phase2_loop p 0 ?t1 = phase2_loop p (0 + ?n) ?t2"
    by (rule phase2_loop_prefix [OF ib assms(2) lt])
  have lt': "?n < quorumSize p" using assms(5) by simp
  have ib2: "inbox ?t2 = Inr (Val (AcceptedMsg a)) # rest" by simp
  have B: "phase2_loop p ?n ?t2 = phase2_loop p (?n + 1) (?t2\<lparr>inbox := rest\<rparr>)"
    using phase2_loop_accepted [OF lt' ib2] assms(3,4) by simp
  have C: "phase2_loop p (?n + 1) (?t2\<lparr>inbox := rest\<rparr>) = (None, ?t2\<lparr>inbox := rest\<rparr>)"
    using assms(5) by (simp add: phase2_loop_done)
  from A B C have "phase2_loop p 0 ?t1 = (None, ?t2\<lparr>inbox := rest\<rparr>)" by simp
  then show ?thesis
    by (simp add: runPhase2_def Let_def Broadcast_def)
qed

lemma runPhase2_rejected:
  assumes "inbox t = pre @ Inr (Val (AcceptedMsg a)) # rest"
    and "quietAccepteds (currentProposal p) pre"
    and "Equal (acdProposalNumber a) (currentProposal p)" and "\<not> acdOK a"
    and "int (length (okAccepteds (currentProposal p) pre)) < quorumSize p"
  shows "runPhase2 p t =
     (Some ErrRejected, p,
      \<lparr>inbox = rest,
       outbox = outbox t @
         [Broadcasted (Val (AcceptMsg \<lparr>accProposalNumber = currentProposal p,
                  accValue = valueToPropose p, accFrom = idP p\<rparr>))]\<rparr>)"
proof -
  let ?pn = "currentProposal p"
  let ?t1 = "Broadcast t (Val (AcceptMsg \<lparr>accProposalNumber = currentProposal p,
               accValue = valueToPropose p, accFrom = idP p\<rparr>))"
  let ?n = "int (length (okAccepteds ?pn pre))"
  let ?t2 = "?t1\<lparr>inbox := Inr (Val (AcceptedMsg a)) # rest\<rparr>"
  have ib: "inbox ?t1 = pre @ Inr (Val (AcceptedMsg a)) # rest"
    using assms(1) by (simp add: Broadcast_def)
  have lt: "0 + ?n < quorumSize p" using assms(5) by simp
  have A: "phase2_loop p 0 ?t1 = phase2_loop p (0 + ?n) ?t2"
    by (rule phase2_loop_prefix [OF ib assms(2) lt])
  have lt': "?n < quorumSize p" using assms(5) by simp
  have ib2: "inbox ?t2 = Inr (Val (AcceptedMsg a)) # rest" by simp
  have B: "phase2_loop p ?n ?t2 = (Some ErrRejected, ?t2\<lparr>inbox := rest\<rparr>)"
    using phase2_loop_accepted [OF lt' ib2] assms(3,4) by simp
  from A B have "phase2_loop p 0 ?t1 = (Some ErrRejected, ?t2\<lparr>inbox := rest\<rparr>)" by simp
  then show ?thesis
    by (simp add: runPhase2_def Let_def Broadcast_def)
qed

lemma runPhase2_receive_error:
  assumes "inbox t = pre @ Inl e # rest"
    and "quietAccepteds (currentProposal p) pre"
    and "int (length (okAccepteds (currentProposal p) pre)) < quorumSize p"
  shows "runPhase2 p t =
     (Some e, p,
      \<lparr>inbox = rest,
       outbox = outbox t @
         [Broadcasted (Val (AcceptMsg \<lparr>accProposalNumber = currentProposal p,
                  accValue = valueToPropose p, accFrom = idP p\<rparr>))]\<rparr>)"
proof -
  let ?pn = "currentProposal p"
  let ?t1 = "Broadcast t (Val (AcceptMsg \<lparr>accProposalNumber = currentProposal p,
               accValue = valueToPropose p, accFrom = idP p\<rparr>))"
  let ?n = "int (length (okAccepteds ?pn pre))"
  let ?t2 = "?t1\<lparr>inbox := Inl e # rest\<rparr>"
  have ib: "inbox ?t1 = pre @ Inl e # rest"
    using assms(1) by (simp add: Broadcast_def)
  have lt: "0 + ?n < quorumSize p" using assms(3) by simp
  have A: "phase2_loop p 0 ?t1 = phase2_loop p (0 + ?n) ?t2"
    by (rule phase2_loop_prefix [OF ib assms(2) lt])
  have lt': "?n < quorumSize p" using assms(3) by simp
  have ib2: "inbox ?t2 = Inl e # rest" by simp
  have B: "phase2_loop p ?n ?t2 = (Some e, ?t2\<lparr>inbox := rest\<rparr>)"
    by (rule phase2_loop_error [OF lt' ib2])
  from A B have "phase2_loop p 0 ?t1 = (Some e, ?t2\<lparr>inbox := rest\<rparr>)" by simp
  then show ?thesis
    by (simp add: runPhase2_def Let_def Broadcast_def)
qed

lemma runPhase2_starved:
  assumes "quietAccepteds (currentProposal p) (inbox t)"
    and "int (length (okAccepteds (currentProposal p) (inbox t))) < quorumSize p"
  shows "runPhase2 p t =
     (Some ErrClosed, p,
      \<lparr>inbox = [],
       outbox = outbox t @
         [Broadcasted (Val (AcceptMsg \<lparr>accProposalNumber = currentProposal p,
                  accValue = valueToPropose p, accFrom = idP p\<rparr>))]\<rparr>)"
proof -
  let ?pn = "currentProposal p"
  let ?t1 = "Broadcast t (Val (AcceptMsg \<lparr>accProposalNumber = currentProposal p,
               accValue = valueToPropose p, accFrom = idP p\<rparr>))"
  let ?n = "int (length (okAccepteds ?pn (inbox t)))"
  let ?t2 = "?t1\<lparr>inbox := []\<rparr>"
  have ib: "inbox ?t1 = inbox t @ []" by (simp add: Broadcast_def)
  have lt: "0 + ?n < quorumSize p" using assms(2) by simp
  have A: "phase2_loop p 0 ?t1 = phase2_loop p (0 + ?n) ?t2"
    by (rule phase2_loop_prefix [OF ib assms(1) lt])
  have lt': "?n < quorumSize p" using assms(2) by simp
  have ib2: "inbox ?t2 = []" by simp
  have B: "phase2_loop p ?n ?t2 = (Some ErrClosed, ?t2)"
    by (rule phase2_loop_closed [OF lt' ib2])
  from A B have "phase2_loop p 0 ?t1 = (Some ErrClosed, ?t2)" by simp
  then show ?thesis
    by (simp add: runPhase2_def Let_def Broadcast_def)
qed

text \<open>
  Conversely, every message a phase takes from the transport comes after a quiet stretch
  that left the quorum incomplete. So a rejection for the current proposal that a phase
  receives at all is the last message it takes, and ends it.
\<close>

lemma quietPromises_no_rejection:
  "quietPromises pn rs \<Longrightarrow> Inr (Val (PromiseMsg pr)) \<in> set rs \<Longrightarrow>
     Equal (promProposalNumber pr) pn \<Longrightarrow> promOK pr"
  by (induction pn rs rule: quietPromises.induct) (auto split: if_splits)

lemma quietAccepteds_no_rejection:
  "quietAccepteds pn rs \<Longrightarrow> Inr (Val (AcceptedMsg a)) \<in> set rs \<Longrightarrow>
     Equal (acdProposalNumber a) pn \<Longrightarrow> acdOK a"
  by (induction pn rs rule: quietAccepteds.induct) (auto split: if_splits)

lemma quietPromises_Cons:
  "quietPromises pn (x # rs) \<longleftrightarrow>
     (\<forall>e. x \<noteq> Inl e)
     \<and> (\<forall>pr. x = Inr (Val (PromiseMsg pr)) \<and> Equal (promProposalNumber pr) pn \<longrightarrow> promOK pr)
     \<and> quietPromises pn rs"
  by (cases "(pn, x # rs)" rule: quietPromises.cases) auto

lemma quietAccepteds_Cons:
  "quietAccepteds pn (x # rs) \<longleftrightarrow>
     (\<forall>e. x \<noteq> Inl e)
     \<and> (\<forall>a. x = Inr (Val (AcceptedMsg a)) \<and> Equal (acdProposalNumber a) pn \<longrightarrow> acdOK a)
     \<and> quietAccepteds pn rs"
  by (cases "(pn, x # rs)" rule: quietAccepteds.cases) auto

lemma phase2_loop_taken:
  "inbox t = xs \<Longrightarrow> phase2_loop p c t = (r, t') \<Longrightarrow>
     \<exists>cs. xs = cs @ inbox t'
        \<and> (cs = [] \<or> (quietAccepteds (currentProposal p) (butlast cs)
              \<and> c + int (length (okAccepteds (currentProposal p) (butlast cs))) < quorumSize p))"
proof (induction xs arbitrary: c t)
  case Nil
  then show ?case
    by (cases "c < quorumSize p") (auto simp: phase2_loop_done phase2_loop_closed)
next
  case (Cons x xs)
  show ?case
  proof (cases "c < quorumSize p")
    case False
    with Cons.prems show ?thesis
      by (auto simp: phase2_loop_done)
  next
    case True
    let ?pn = "currentProposal p"
    let ?t = "t\<lparr>inbox := xs\<rparr>"
    have it: "inbox ?t = xs" by simp
    show ?thesis
    proof (cases "\<exists>a. x = Inr (Val (AcceptedMsg a)) \<and> Equal (acdProposalNumber a) ?pn")
      case True
      then obtain a where x: "x = Inr (Val (AcceptedMsg a))"
        and eq: "Equal (acdProposalNumber a) ?pn" by blast
      show ?thesis
      proof (cases "acdOK a")
        case False
        with Cons.prems x eq \<open>c < quorumSize p\<close> have "t' = ?t"
          by (auto simp: phase2_loop_accepted)
        then have "x # xs = [x] @ inbox t'" by simp
        with \<open>c < quorumSize p\<close> show ?thesis by fastforce
      next
        case ok: True
        from Cons.prems \<open>c < quorumSize p\<close> x eq ok
        have rec: "phase2_loop p (c + 1) ?t = (r, t')"
          by (auto simp: phase2_loop_accepted)
        from Cons.IH [OF it rec] obtain cs where
          cs: "xs = cs @ inbox t'"
            "cs = [] \<or> (quietAccepteds ?pn (butlast cs)
               \<and> c + 1 + int (length (okAccepteds ?pn (butlast cs))) < quorumSize p)"
          by blast
        have "x # xs = (x # cs) @ inbox t'" using cs by simp
        moreover have "quietAccepteds ?pn (butlast (x # cs))
               \<and> c + int (length (okAccepteds ?pn (butlast (x # cs)))) < quorumSize p"
          using cs(2) x eq ok \<open>c < quorumSize p\<close> by (cases "cs = []") auto
        ultimately show ?thesis by blast
      qed
    next
      case False
      have skip: "okAccepteds ?pn (x # ys) = okAccepteds ?pn ys" for ys
        using False by (cases "(?pn, x # ys)" rule: okAccepteds.cases) auto
      show ?thesis
      proof (cases x)
        case (Inl e)
        with Cons.prems \<open>c < quorumSize p\<close> have "t' = ?t"
          by (auto simp: phase2_loop_error)
        then have "x # xs = [x] @ inbox t'" by simp
        with \<open>c < quorumSize p\<close> show ?thesis by fastforce
      next
        case (Inr m)
        have q: "quietAccepteds ?pn (x # ys) = quietAccepteds ?pn ys" for ys
          using False Inr by (auto simp: quietAccepteds_Cons)
        have rec: "phase2_loop p c ?t = (r, t')"
        proof (cases "\<exists>a. m = Val (AcceptedMsg a)")
          case True
          with Inr False Cons.prems \<open>c < quorumSize p\<close> show ?thesis
            by (auto simp: phase2_loop_accepted)
        next
          case False
          with Inr Cons.prems \<open>c < quorumSize p\<close> show ?thesis
            by (simp add: phase2_loop_other)
        qed
        from Cons.IH [OF it rec] obtain cs where
          cs: "xs = cs @ inbox t'"
            "cs = [] \<or> (quietAccepteds ?pn (butlast cs)
               \<and> c + int (length (okAccepteds ?pn (butlast cs))) < quorumSize p)"
          by blast
        have "x # xs = (x # cs) @ inbox t'" using cs by simp
        moreover have "quietAccepteds ?pn (butlast (x # cs))
               \<and> c + int (length (okAccepteds ?pn (butlast (x # cs)))) < quorumSize p"
          using cs(2) skip q \<open>c < quorumSize p\<close> by (cases "cs = []") auto
        ultimately show ?thesis by blast
      qed
    qed
  qed
qed

lemma runPhase2_takes_rejection:
  assumes run: "runPhase2 p t = (r, p', t')"
    and mem: "Inr (Val (AcceptedMsg a)) \<in> set (received t t')"
    and eq: "Equal (acdProposalNumber a) (currentProposal p)" and no: "\<not> acdOK a"
  shows "r = Some ErrRejected"
proof -
  let ?pn = "currentProposal p"
  let ?t1 = "Broadcast t (Val (AcceptMsg \<lparr>accProposalNumber = currentProposal p,
               accValue = valueToPropose p, accFrom = idP p\<rparr>))"
  obtain r1 t1 where L: "phase2_loop p 0 ?t1 = (r1, t1)" by (cases "phase2_loop p 0 ?t1")
  have ib: "inbox ?t1 = inbox t" by (simp add: Broadcast_def)
  have it: "inbox t' = inbox t1"
    using run L by (auto simp: runPhase2_def Let_def Broadcast_def split: option.splits)
  from phase2_loop_taken [OF ib L] obtain cs where
    cs: "inbox t = cs @ inbox t1"
      "cs = [] \<or> (quietAccepteds ?pn (butlast cs)
         \<and> 0 + int (length (okAccepteds ?pn (butlast cs))) < quorumSize p)"
    by blast
  have rc: "received t t' = cs" using cs(1) it by (simp add: received_def)
  with mem have ne: "cs \<noteq> []" by auto
  with cs(2) have q: "quietAccepteds ?pn (butlast cs)"
    and lt: "int (length (okAccepteds ?pn (butlast cs))) < quorumSize p" by simp_all
  have "Inr (Val (AcceptedMsg a)) \<notin> set (butlast cs)"
    using quietAccepteds_no_rejection [OF q _ eq] no by blast
  with mem rc ne have la: "last cs = Inr (Val (AcceptedMsg a))"
    by (metis append_butlast_last_id in_set_butlast_appendI insert_iff list.set(2) set_append empty_iff list.set(1) Un_iff)
  have "inbox t = butlast cs @ Inr (Val (AcceptedMsg a)) # inbox t1"
    using cs(1) ne la by (metis append.assoc append_Cons append_Nil append_butlast_last_id)
  from runPhase2_rejected [OF this q eq no lt] run show ?thesis by simp
qed


lemma phase1_loop_taken:
  "inbox t = xs \<Longrightarrow> phase1_loop p c t = (r, p', t') \<Longrightarrow>
     \<exists>cs. xs = cs @ inbox t'
        \<and> (cs = [] \<or> (quietPromises (currentProposal p) (butlast cs)
              \<and> c + int (length (okPromises (currentProposal p) (butlast cs))) < quorumSize p))"
proof (induction xs arbitrary: p c t)
  case Nil
  then show ?case
    by (cases "c < quorumSize p") (auto simp: phase1_loop_done phase1_loop_closed)
next
  case (Cons x xs)
  show ?case
  proof (cases "c < quorumSize p")
    case False
    with Cons.prems show ?thesis
      by (auto simp: phase1_loop_done)
  next
    case True
    let ?pn = "currentProposal p"
    let ?t = "t\<lparr>inbox := xs\<rparr>"
    have it: "inbox ?t = xs" by simp
    show ?thesis
    proof (cases "\<exists>pr. x = Inr (Val (PromiseMsg pr)) \<and> Equal (promProposalNumber pr) ?pn")
      case True
      then obtain pr where x: "x = Inr (Val (PromiseMsg pr))"
        and eq: "Equal (promProposalNumber pr) ?pn" by blast
      show ?thesis
      proof (cases "promOK pr")
        case False
        with Cons.prems x eq \<open>c < quorumSize p\<close> have "t' = ?t"
          by (auto simp: phase1_loop_promise)
        then have "x # xs = [x] @ inbox t'" by simp
        with \<open>c < quorumSize p\<close> show ?thesis by fastforce
      next
        case ok: True
        let ?p = "p\<lparr>promise := promise p @ [pr]\<rparr>"
        from Cons.prems \<open>c < quorumSize p\<close> x eq ok
        have rec: "phase1_loop ?p (c + 1) ?t = (r, p', t')"
          by (auto simp: phase1_loop_promise)
        from Cons.IH [OF it rec] obtain cs where
          cs: "xs = cs @ inbox t'"
            "cs = [] \<or> (quietPromises ?pn (butlast cs)
               \<and> c + 1 + int (length (okPromises ?pn (butlast cs))) < quorumSize p)"
          by auto
        have "x # xs = (x # cs) @ inbox t'" using cs by simp
        moreover have "quietPromises ?pn (butlast (x # cs))
               \<and> c + int (length (okPromises ?pn (butlast (x # cs)))) < quorumSize p"
          using cs(2) x eq ok \<open>c < quorumSize p\<close> by (cases "cs = []") auto
        ultimately show ?thesis by blast
      qed
    next
      case False
      have skip: "okPromises ?pn (x # ys) = okPromises ?pn ys" for ys
        using False by (cases "(?pn, x # ys)" rule: okPromises.cases) auto
      show ?thesis
      proof (cases x)
        case (Inl e)
        with Cons.prems \<open>c < quorumSize p\<close> have "t' = ?t"
          by (auto simp: phase1_loop_error)
        then have "x # xs = [x] @ inbox t'" by simp
        with \<open>c < quorumSize p\<close> show ?thesis by fastforce
      next
        case (Inr m)
        have q: "quietPromises ?pn (x # ys) = quietPromises ?pn ys" for ys
          using False Inr by (auto simp: quietPromises_Cons)
        have rec: "phase1_loop p c ?t = (r, p', t')"
        proof (cases "\<exists>pr. m = Val (PromiseMsg pr)")
          case True
          with Inr False Cons.prems \<open>c < quorumSize p\<close> show ?thesis
            by (auto simp: phase1_loop_promise)
        next
          case False
          with Inr Cons.prems \<open>c < quorumSize p\<close> show ?thesis
            by (simp add: phase1_loop_other)
        qed
        from Cons.IH [OF it rec] obtain cs where
          cs: "xs = cs @ inbox t'"
            "cs = [] \<or> (quietPromises ?pn (butlast cs)
               \<and> c + int (length (okPromises ?pn (butlast cs))) < quorumSize p)"
          by blast
        have "x # xs = (x # cs) @ inbox t'" using cs by simp
        moreover have "quietPromises ?pn (butlast (x # cs))
               \<and> c + int (length (okPromises ?pn (butlast (x # cs)))) < quorumSize p"
          using cs(2) skip q \<open>c < quorumSize p\<close> by (cases "cs = []") auto
        ultimately show ?thesis by blast
      qed
    qed
  qed
qed

lemma runPhase1_takes_rejection:
  assumes run: "runPhase1 p t = (r, p', t')"
    and mem: "Inr (Val (PromiseMsg pr)) \<in> set (received t t')"
    and eq: "Equal (promProposalNumber pr) (currentProposal p)" and no: "\<not> promOK pr"
  shows "r = Some ErrRejected"
    and "p' = handleRejection
                (p\<lparr>promise := promise p @ okPromises (currentProposal p) (received t t')\<rparr>)
                (promAcceptedProposal pr)"
    and "highestRound p' = highestRound (handleRejection p (promAcceptedProposal pr))"
proof -
  let ?pn = "currentProposal p"
  let ?t1 = "Broadcast t (Val (PrepareMsg \<lparr>prepProposalNumber = currentProposal p, prepFrom = idP p\<rparr>))"
  obtain r1 q1 t1 where L: "phase1_loop p 0 ?t1 = (r1, q1, t1)"
    by (cases "phase1_loop p 0 ?t1")
  have ib: "inbox ?t1 = inbox t" by (simp add: Broadcast_def)
  have it: "t' = t1"
    using run L by (auto simp: runPhase1_def Let_def split: option.splits)
  from phase1_loop_taken [OF ib L] obtain cs where
    cs: "inbox t = cs @ inbox t1"
      "cs = [] \<or> (quietPromises ?pn (butlast cs)
         \<and> 0 + int (length (okPromises ?pn (butlast cs))) < quorumSize p)"
    by blast
  have rc: "received t t' = cs" using cs(1) it by (simp add: received_def)
  with mem have ne: "cs \<noteq> []" by auto
  with cs(2) have q: "quietPromises ?pn (butlast cs)"
    and lt: "int (length (okPromises ?pn (butlast cs))) < quorumSize p" by simp_all
  have "Inr (Val (PromiseMsg pr)) \<notin> set (butlast cs)"
    using quietPromises_no_rejection [OF q _ eq] no by blast
  with mem rc ne have la: "last cs = Inr (Val (PromiseMsg pr))"
    by (metis append_butlast_last_id in_set_butlast_appendI insert_iff list.set(2) set_append empty_iff list.set(1) Un_iff)
  have split: "cs = butlast cs @ [Inr (Val (PromiseMsg pr))]"
    using ne la by (metis append_butlast_last_id)
  have ib2: "inbox t = butlast cs @ Inr (Val (PromiseMsg pr)) # inbox t1"
    using cs(1) split by (metis append.assoc append_Cons append_Nil)
  have oks: "okPromises ?pn cs = okPromises ?pn (butlast cs)"
    using eq no by (subst split) (simp add: okPromises_append)
  note R = runPhase1_rejected [OF ib2 q eq no lt]
  from R run show "r = Some ErrRejected" by simp
  from R run rc oks show "p' = handleRejection
                (p\<lparr>promise := promise p @ okPromises (currentProposal p) (received t t')\<rparr>)
                (promAcceptedProposal pr)" by simp
  then show "highestRound p' = highestRound (handleRejection p (promAcceptedProposal pr))"
    by (simp add: handleRejection_def)
qed

lemmas ex_dup_defs = ex_round1_def ex_dup_promise_def ex_dup_accepted_def ex_dup_transport_def
  ex_dup_final_def ex_dup_outbox_def

lemmas run_defs = Propose_def NewProposer_def attempt_start_def generateProposalNumber_def
  runPhase1_def runPhase2_def Broadcast_def Receive_def Equal_def IsZero_def GreaterThan_def
  zeroProposal_def handleRejection_def word_sless_alt

lemmas acceptor_defs = NewAcceptor_def HandlePrepare_def HandleAccept_def callSavePromised_def
  callLoadPromised_def callSaveAccepted_def callLoadAccepted_def toStorageProposal_def
  memoryStorage_def callerSlice_def NewMemoryStorage_def SavePromised_def LoadPromised_def
  SaveAccepted_def LoadAccepted_def makeBytes_def copyBytes_def lenBytes_def contents_def
  GreaterOrEqual_def

subsection \<open>Quorum counting\<close>

text \<open>
  C2, as stated, fails: the proposer does not look at \<^verbatim>\<open>From\<close>. With \<^verbatim>\<open>quorumSize = 2\<close> and a
  single acceptor \<open>a1\<close> whose Promise and whose Accepted are each delivered twice,
  \<^verbatim>\<open>Propose\<close> returns: both quorums are reached on one acceptor id.
\<close>

theorem duplicate_responses_reach_quorum:
  "Propose (NewProposer ''n0'' 2) ex_dup_transport [66] =
     Some ([66], ex_dup_final, \<lparr>inbox = [], outbox = ex_dup_outbox\<rparr>)
   \<and> quorumSize ex_dup_final = 2
   \<and> set (map promFrom (promise ex_dup_final)) = {''a1''}
   \<and> set (map acdFrom (okAccepteds ex_round1 (inbox ex_dup_transport))) = {''a1''}"
  by (simp add: propose_loop.simps phase1_loop.simps phase2_loop.simps run_defs ex_dup_defs)

text \<open>
  C2, amended. The proposer counts every delivery, whatever its \<^verbatim>\<open>From\<close>. Phase 1 reaches its
  quorum, and ends well, as soon as it has received \<^verbatim>\<open>quorumSize\<close> \<^verbatim>\<open>OK\<close> Promises for the
  current proposal with no receive error and no rejecting Promise for that proposal before
  the last of them; however Phase 1 ends, the promises collected are exactly the \<^verbatim>\<open>OK\<close>
  Promises for the current proposal among the messages received in it, one per delivery;
  when it ends with a quorum there are \<^verbatim>\<open>quorumSize\<close> of them (none if \<^verbatim>\<open>quorumSize\<close> is not
  positive). Phase 2 likewise reaches its quorum as soon as it has received \<^verbatim>\<open>quorumSize\<close>
  \<^verbatim>\<open>OK\<close> Accepteds for the current proposal, and then broadcasts the Learn; when it ends with
  a quorum, the \<^verbatim>\<open>OK\<close> Accepteds for the current proposal among the messages received in it
  number \<^verbatim>\<open>quorumSize\<close>.
\<close>

theorem quorum_counts_every_delivery:
  "(promise p = [] \<and> runPhase1 p t = (None, p1, t1) \<longrightarrow>
      promise p1 = okPromises (currentProposal p) (received t t1)
      \<and> int (length (promise p1)) = max 0 (quorumSize p))
   \<and> (runPhase2 q u = (None, q2, u2) \<longrightarrow>
      int (length (okAccepteds (currentProposal q) (received u u2))) = max 0 (quorumSize q))
   \<and> (inbox t = pre @ Inr (Val (PromiseMsg pr)) # rest
        \<and> quietPromises (currentProposal p) pre
        \<and> Equal (promProposalNumber pr) (currentProposal p) \<and> promOK pr
        \<and> int (length (okPromises (currentProposal p) pre)) + 1 = quorumSize p \<longrightarrow>
      runPhase1 p t =
        (None,
         p\<lparr>promise := promise p @ okPromises (currentProposal p) pre @ [pr],
           valueToPropose :=
             snd (adopt_loop (promise p @ okPromises (currentProposal p) pre @ [pr]) zeroProposal
                    (valueToPropose p))\<rparr>,
         \<lparr>inbox = rest,
          outbox = outbox t @
            [Broadcasted (Val (PrepareMsg \<lparr>prepProposalNumber = currentProposal p,
               prepFrom = idP p\<rparr>))]\<rparr>))
   \<and> (runPhase1 p t = (r, p', t') \<longrightarrow>
      promise p' = promise p @ okPromises (currentProposal p) (received t t'))
   \<and> (inbox u = pre2 @ Inr (Val (AcceptedMsg a)) # rest2
        \<and> quietAccepteds (currentProposal q) pre2
        \<and> Equal (acdProposalNumber a) (currentProposal q) \<and> acdOK a
        \<and> int (length (okAccepteds (currentProposal q) pre2)) + 1 = quorumSize q \<longrightarrow>
      runPhase2 q u =
        (None, q,
         \<lparr>inbox = rest2,
          outbox = outbox u @
            [Broadcasted (Val (AcceptMsg \<lparr>accProposalNumber = currentProposal q,
               accValue = valueToPropose q, accFrom = idP q\<rparr>)),
             Broadcasted (Val (LearnMsg \<lparr>lrnProposalNumber = currentProposal q,
               lrnValue = valueToPropose q, lrnFrom = idP q\<rparr>))]\<rparr>))"
  using runPhase1_success [of p t p1 t1] runPhase2_frame(2) [of q u None q2 u2]
    runPhase1_reaches_quorum [of t pre pr rest p] runPhase1_collects [of p t r p' t']
    runPhase2_reaches_quorum [of u pre2 a rest2 q]
  by auto

text \<open>
  With \<^verbatim>\<open>quorumSize = 2\<close>, the Promise of \<open>a1\<close> delivered twice completes Phase 1 and its
  Accepted delivered twice completes Phase 2.
\<close>

theorem quorum_counts_every_delivery_witness:
  "promise (attempt_start (NewProposer ''n0'' 2)) = []
   \<and> inbox ex_dup_transport =
       [Inr (Val (PromiseMsg ex_dup_promise))] @ Inr (Val (PromiseMsg ex_dup_promise))
         # [Inr (Val (AcceptedMsg ex_dup_accepted)), Inr (Val (AcceptedMsg ex_dup_accepted))]
   \<and> quietPromises ex_round1 [Inr (Val (PromiseMsg ex_dup_promise))]
   \<and> runPhase1 (attempt_start (NewProposer ''n0'' 2)) ex_dup_transport =
       (None, ex_dup_final\<lparr>originalValue := [], valueToPropose := []\<rparr>,
        \<lparr>inbox = [Inr (Val (AcceptedMsg ex_dup_accepted)), Inr (Val (AcceptedMsg ex_dup_accepted))],
         outbox = [Broadcasted (Val (PrepareMsg \<lparr>prepProposalNumber = ex_round1, prepFrom = ''n0''\<rparr>))]\<rparr>)
   \<and> okPromises ex_round1 (take 2 (inbox ex_dup_transport)) = [ex_dup_promise, ex_dup_promise]
   \<and> quietAccepteds ex_round1 [Inr (Val (AcceptedMsg ex_dup_accepted))]
   \<and> runPhase2 ex_dup_final \<lparr>inbox = drop 2 (inbox ex_dup_transport), outbox = []\<rparr> =
       (None, ex_dup_final, \<lparr>inbox = [], outbox = tl ex_dup_outbox\<rparr>)
   \<and> length (okAccepteds ex_round1 (drop 2 (inbox ex_dup_transport))) = 2"
  using quorum_counts_every_delivery [where p = "attempt_start (NewProposer ''n0'' 2)"
      and t = ex_dup_transport
      and ?p1.0 = "ex_dup_final\<lparr>originalValue := [], valueToPropose := []\<rparr>"
      and ?t1.0 = "\<lparr>inbox = [Inr (Val (AcceptedMsg ex_dup_accepted)), Inr (Val (AcceptedMsg ex_dup_accepted))],
         outbox = [Broadcasted (Val (PrepareMsg \<lparr>prepProposalNumber = ex_round1, prepFrom = ''n0''\<rparr>))]\<rparr>"
      and q = ex_dup_final and u = "\<lparr>inbox = drop 2 (inbox ex_dup_transport), outbox = []\<rparr>"
      and ?q2.0 = ex_dup_final and ?u2.0 = "\<lparr>inbox = [], outbox = tl ex_dup_outbox\<rparr>"
      and pre = "[Inr (Val (PromiseMsg ex_dup_promise))]" and pr = ex_dup_promise
      and rest = "[Inr (Val (AcceptedMsg ex_dup_accepted)), Inr (Val (AcceptedMsg ex_dup_accepted))]"
      and r = None and p' = "ex_dup_final\<lparr>originalValue := [], valueToPropose := []\<rparr>"
      and t' = "\<lparr>inbox = [Inr (Val (AcceptedMsg ex_dup_accepted)), Inr (Val (AcceptedMsg ex_dup_accepted))],
         outbox = [Broadcasted (Val (PrepareMsg \<lparr>prepProposalNumber = ex_round1, prepFrom = ''n0''\<rparr>))]\<rparr>"
      and ?pre2.0 = "[Inr (Val (AcceptedMsg ex_dup_accepted))]" and a = ex_dup_accepted
      and ?rest2.0 = "[]"]
  by (simp add: phase1_loop.simps phase2_loop.simps run_defs ex_dup_defs received_def)

lemmas ex_carry_defs = ex_round1_def ex_round2_def ex_promise_def ex_accepted_def
  ex_carry_round1_def ex_carry_round2_def ex_carry_transport_def ex_client_def
  ex_after_round1_def ex_carry_final_def ex_carry_outbox_def

subsection \<open>Proposal numbers of one proposer\<close>

lemma sint_succ64:
  fixes x :: int64
  assumes "sint x < 2 ^ 63 - 1"
  shows "sint (x + 1) = sint x + 1"
proof -
  have "- (2 ^ 63) \<le> sint x" using sint_ge [of x] by simp
  with assms show ?thesis
    by (simp add: sint_word_ariths signed_take_bit_int_eq_self)
qed

lemma handleRejection_round:
  "sint (highestRound (handleRejection p hs)) = max (sint (highestRound p)) (sint (Round hs))"
  by (simp add: handleRejection_def word_sless_alt max_def)

lemma handleRejection_frame:
  "handleRejection p hs = p\<lparr>highestRound := highestRound (handleRejection p hs)\<rparr>"
  by (simp add: handleRejection_def)

text \<open>
  C7, as stated, fails at the top of \<^verbatim>\<open>int64\<close>: after a rejection that reports round
  \<open>2\<^sup>6\<^sup>3 - 1\<close>, \<^verbatim>\<open>highestRound++\<close> wraps and the next proposal has round \<open>- 2\<^sup>6\<^sup>3\<close>, below
  the reported round and below the proposer's own previous proposal \<open>(1, n0)\<close>.
\<close>

theorem round_wraps_at_max:
  "handleRejection (attempt_start (NewProposer ''n0'' 3)) ex_max_seen =
     (attempt_start (NewProposer ''n0'' 3))\<lparr>highestRound := 9223372036854775807\<rparr>
   \<and> fst (generateProposalNumber (handleRejection (attempt_start (NewProposer ''n0'' 3)) ex_max_seen)) =
       \<lparr>Round = - 9223372036854775808, ProposerID = ''n0''\<rparr>
   \<and> \<not> (Round ex_max_seen <s
          Round (fst (generateProposalNumber (handleRejection (attempt_start (NewProposer ''n0'' 3)) ex_max_seen))))
   \<and> \<not> GreaterThan
          (fst (generateProposalNumber (handleRejection (attempt_start (NewProposer ''n0'' 3)) ex_max_seen)))
          (currentProposal (attempt_start (NewProposer ''n0'' 3)))"
  by (simp add: run_defs ex_max_seen_def)

text \<open>
  A rejecting Promise for the current proposal, received in Phase 1 before the quorum is
  complete, ends the phase with \<^verbatim>\<open>ErrRejected\<close> after \<^verbatim>\<open>handleRejection\<close> has seen the proposal
  number it reports; \<^verbatim>\<open>Propose\<close> then starts its next attempt from that state.
\<close>

lemma rejected_promise_raises_round:
  assumes "inbox t = pre @ Inr (Val (PromiseMsg pr)) # rest"
    and "quietPromises (currentProposal p) pre"
    and "int (length (okPromises (currentProposal p) pre)) < quorumSize p"
    and "Equal (promProposalNumber pr) (currentProposal p)" and "\<not> promOK pr"
  shows "runPhase1 p t =
     (Some ErrRejected,
      handleRejection (p\<lparr>promise := promise p @ okPromises (currentProposal p) pre\<rparr>)
        (promAcceptedProposal pr),
      \<lparr>inbox = rest,
       outbox = outbox t @
         [Broadcasted (Val (PrepareMsg \<lparr>prepProposalNumber = currentProposal p,
            prepFrom = idP p\<rparr>))]\<rparr>)"
    and "highestRound (fst (snd (runPhase1 p t))) =
           highestRound (handleRejection p (promAcceptedProposal pr))"
    and "Round (currentProposal (attempt_start (fst (snd (runPhase1 p t))))) =
           Round (fst (generateProposalNumber (handleRejection p (promAcceptedProposal pr))))"
    and "p = attempt_start p0 \<Longrightarrow>
           propose_loop p0 t = propose_loop (fst (snd (runPhase1 p t))) (snd (snd (runPhase1 p t)))"
proof -
  show R: "runPhase1 p t =
     (Some ErrRejected,
      handleRejection (p\<lparr>promise := promise p @ okPromises (currentProposal p) pre\<rparr>)
        (promAcceptedProposal pr),
      \<lparr>inbox = rest,
       outbox = outbox t @
         [Broadcasted (Val (PrepareMsg \<lparr>prepProposalNumber = currentProposal p,
            prepFrom = idP p\<rparr>))]\<rparr>)"
    by (rule runPhase1_rejected [OF assms(1,2,4,5,3)])
  show H: "highestRound (fst (snd (runPhase1 p t))) =
           highestRound (handleRejection p (promAcceptedProposal pr))"
    by (simp add: R handleRejection_def)
  show "Round (currentProposal (attempt_start (fst (snd (runPhase1 p t))))) =
           Round (fst (generateProposalNumber (handleRejection p (promAcceptedProposal pr))))"
    by (simp add: attempt_start_def generateProposalNumber_def Let_def H)
  show "propose_loop p0 t = propose_loop (fst (snd (runPhase1 p t))) (snd (snd (runPhase1 p t)))"
    if "p = attempt_start p0"
    using R that by (subst propose_loop.simps) simp
qed

text \<open>
  C7, amended: as long as neither the proposer's \<^verbatim>\<open>highestRound\<close> nor the round reported in
  a rejection is the largest \<^verbatim>\<open>int64\<close>, \<^verbatim>\<open>generateProposalNumber\<close> returns a round strictly
  above \<^verbatim>\<open>highestRound\<close> and stores it there; \<^verbatim>\<open>handleRejection\<close> raises \<^verbatim>\<open>highestRound\<close> to the
  maximum of itself and the reported round; and the proposal generated after a rejection
  has a round strictly above the old \<^verbatim>\<open>highestRound\<close> and above the reported round, so it
  is greater than every identifier of this proposer with a round up to the old
  \<^verbatim>\<open>highestRound\<close>. A rejecting Promise for the current proposal among the messages Phase 1
  receives is processed in just this way (and it is received whenever it comes before the
  quorum is complete, after any stretch of messages that holds no receive error and no
  earlier rejection): \<^verbatim>\<open>runPhase1\<close> returns \<^verbatim>\<open>ErrRejected\<close> with \<^verbatim>\<open>highestRound\<close> raised to that
  maximum, \<^verbatim>\<open>Propose\<close> goes on from that state, and the proposal of its next attempt has a
  round strictly above both.
\<close>

theorem next_proposal_exceeds:
  assumes "sint (highestRound p) < 2 ^ 63 - 1" and "sint (Round hs) < 2 ^ 63 - 1"
  shows "highestRound p <s Round (fst (generateProposalNumber p))
       \<and> highestRound (snd (generateProposalNumber p)) = Round (fst (generateProposalNumber p))
       \<and> sint (highestRound (handleRejection p hs)) = max (sint (highestRound p)) (sint (Round hs))
       \<and> highestRound p <s Round (fst (generateProposalNumber (handleRejection p hs)))
       \<and> Round hs <s Round (fst (generateProposalNumber (handleRejection p hs)))
       \<and> (\<forall>r. r \<le>s highestRound p \<longrightarrow>
             GreaterThan (fst (generateProposalNumber (handleRejection p hs)))
               \<lparr>Round = r, ProposerID = idP p\<rparr>)
       \<and> (inbox t = pre @ Inr (Val (PromiseMsg pr)) # rest
            \<and> quietPromises (currentProposal p) pre
            \<and> int (length (okPromises (currentProposal p) pre)) < quorumSize p
            \<and> Equal (promProposalNumber pr) (currentProposal p) \<and> \<not> promOK pr
            \<and> promAcceptedProposal pr = hs \<longrightarrow>
          runPhase1 p t =
            (Some ErrRejected,
             handleRejection (p\<lparr>promise := promise p @ okPromises (currentProposal p) pre\<rparr>) hs,
             \<lparr>inbox = rest,
              outbox = outbox t @
                [Broadcasted (Val (PrepareMsg \<lparr>prepProposalNumber = currentProposal p,
                   prepFrom = idP p\<rparr>))]\<rparr>)
          \<and> sint (highestRound (fst (snd (runPhase1 p t)))) =
              max (sint (highestRound p)) (sint (Round hs))
          \<and> highestRound p <s Round (currentProposal (attempt_start (fst (snd (runPhase1 p t)))))
          \<and> Round hs <s Round (currentProposal (attempt_start (fst (snd (runPhase1 p t)))))
          \<and> (p = attempt_start p0 \<longrightarrow>
               propose_loop p0 t =
                 propose_loop (fst (snd (runPhase1 p t))) (snd (snd (runPhase1 p t)))))
       \<and> (runPhase1 p t = (r1, p1, t1)
            \<and> Inr (Val (PromiseMsg pr)) \<in> set (received t t1)
            \<and> Equal (promProposalNumber pr) (currentProposal p) \<and> \<not> promOK pr
            \<and> promAcceptedProposal pr = hs \<longrightarrow>
          r1 = Some ErrRejected
          \<and> sint (highestRound p1) = max (sint (highestRound p)) (sint (Round hs))
          \<and> highestRound p <s Round (currentProposal (attempt_start p1))
          \<and> Round hs <s Round (currentProposal (attempt_start p1)))"
proof -
  let ?q = "handleRejection p hs"
  have m: "sint (highestRound ?q) = max (sint (highestRound p)) (sint (Round hs))"
    by (rule handleRejection_round)
  with assms have b: "sint (highestRound ?q) < 2 ^ 63 - 1" by simp
  have g: "Round (fst (generateProposalNumber x)) = highestRound x + 1"
    "highestRound (snd (generateProposalNumber x)) = highestRound x + 1" for x
    by (simp_all add: generateProposalNumber_def Let_def)
  have s1: "sint (highestRound p + 1) = sint (highestRound p) + 1"
    using assms(1) by (rule sint_succ64)
  have s2: "sint (highestRound ?q + 1) = sint (highestRound ?q) + 1"
    using b by (rule sint_succ64)
  have old: "highestRound p <s Round (fst (generateProposalNumber p))
       \<and> highestRound (snd (generateProposalNumber p)) = Round (fst (generateProposalNumber p))
       \<and> sint (highestRound (handleRejection p hs)) = max (sint (highestRound p)) (sint (Round hs))
       \<and> highestRound p <s Round (fst (generateProposalNumber (handleRejection p hs)))
       \<and> Round hs <s Round (fst (generateProposalNumber (handleRejection p hs)))
       \<and> (\<forall>r. r \<le>s highestRound p \<longrightarrow>
             GreaterThan (fst (generateProposalNumber (handleRejection p hs)))
               \<lparr>Round = r, ProposerID = idP p\<rparr>)"
    using m s1 s2 by (auto simp: g word_sless_alt word_sle_eq GreaterThan_def)
  have new: "runPhase1 p t =
            (Some ErrRejected,
             handleRejection (p\<lparr>promise := promise p @ okPromises (currentProposal p) pre\<rparr>) hs,
             \<lparr>inbox = rest,
              outbox = outbox t @
                [Broadcasted (Val (PrepareMsg \<lparr>prepProposalNumber = currentProposal p,
                   prepFrom = idP p\<rparr>))]\<rparr>)
          \<and> sint (highestRound (fst (snd (runPhase1 p t)))) =
              max (sint (highestRound p)) (sint (Round hs))
          \<and> highestRound p <s Round (currentProposal (attempt_start (fst (snd (runPhase1 p t)))))
          \<and> Round hs <s Round (currentProposal (attempt_start (fst (snd (runPhase1 p t)))))
          \<and> (p = attempt_start p0 \<longrightarrow>
               propose_loop p0 t =
                 propose_loop (fst (snd (runPhase1 p t))) (snd (snd (runPhase1 p t))))"
    if h: "inbox t = pre @ Inr (Val (PromiseMsg pr)) # rest"
      "quietPromises (currentProposal p) pre"
      "int (length (okPromises (currentProposal p) pre)) < quorumSize p"
      "Equal (promProposalNumber pr) (currentProposal p)" "\<not> promOK pr"
      "promAcceptedProposal pr = hs"
  proof -
    note L = rejected_promise_raises_round [OF h(1-5), unfolded h(6)]
    from L(2) m have "sint (highestRound (fst (snd (runPhase1 p t)))) =
        max (sint (highestRound p)) (sint (Round hs))" by simp
    moreover from L(3) old
    have "highestRound p <s Round (currentProposal (attempt_start (fst (snd (runPhase1 p t)))))"
      "Round hs <s Round (currentProposal (attempt_start (fst (snd (runPhase1 p t)))))"
      by simp_all
    ultimately show ?thesis using L(1) L(4) [of p0] by blast
  qed
  have taken: "r1 = Some ErrRejected
          \<and> sint (highestRound p1) = max (sint (highestRound p)) (sint (Round hs))
          \<and> highestRound p <s Round (currentProposal (attempt_start p1))
          \<and> Round hs <s Round (currentProposal (attempt_start p1))"
    if h: "runPhase1 p t = (r1, p1, t1)" "Inr (Val (PromiseMsg pr)) \<in> set (received t t1)"
      "Equal (promProposalNumber pr) (currentProposal p)" "\<not> promOK pr"
      "promAcceptedProposal pr = hs"
  proof -
    note T = runPhase1_takes_rejection [OF h(1-4), unfolded h(5)]
    have "Round (currentProposal (attempt_start p1)) =
        Round (fst (generateProposalNumber (handleRejection p hs)))"
      by (simp add: attempt_start_def generateProposalNumber_def Let_def T(3))
    with T(1,3) m old show ?thesis by simp
  qed
  from old new taken show ?thesis by blast
qed

text \<open>
  Proposer \<open>n0\<close> is in Phase 1 of round 1 with quorum 3; the Promise of \<open>a1\<close> is followed by
  the rejection of \<open>a2\<close>, which reports \<open>(3, n2)\<close>. The next attempt of \<^verbatim>\<open>Propose\<close> uses
  \<open>(4, n0)\<close>.
\<close>

theorem next_proposal_exceeds_witness:
  "sint (highestRound (attempt_start (NewProposer ''n0'' 3))) < 2 ^ 63 - 1
   \<and> sint (Round ex_seen) < 2 ^ 63 - 1
   \<and> currentProposal (attempt_start (NewProposer ''n0'' 3)) = \<lparr>Round = 1, ProposerID = ''n0''\<rparr>
   \<and> fst (generateProposalNumber (handleRejection (attempt_start (NewProposer ''n0'' 3)) ex_seen)) =
       \<lparr>Round = 4, ProposerID = ''n0''\<rparr>
   \<and> GreaterThan \<lparr>Round = 4, ProposerID = ''n0''\<rparr> \<lparr>Round = 1, ProposerID = ''n0''\<rparr>
   \<and> inbox ex_reject_transport =
       [Inr (Val (PromiseMsg ex_dup_promise))] @ Inr (Val (PromiseMsg ex_reject_promise)) # []
   \<and> quietPromises ex_round1 [Inr (Val (PromiseMsg ex_dup_promise))]
   \<and> okPromises ex_round1 [Inr (Val (PromiseMsg ex_dup_promise))] = [ex_dup_promise]
   \<and> Equal (promProposalNumber ex_reject_promise) ex_round1 \<and> \<not> promOK ex_reject_promise
   \<and> promAcceptedProposal ex_reject_promise = ex_seen
   \<and> runPhase1 (attempt_start (NewProposer ''n0'' 3)) ex_reject_transport =
       (Some ErrRejected,
        (attempt_start (NewProposer ''n0'' 3))\<lparr>promise := [ex_dup_promise], highestRound := 3\<rparr>,
        \<lparr>inbox = [],
         outbox = [Broadcasted (Val (PrepareMsg \<lparr>prepProposalNumber = ex_round1, prepFrom = ''n0''\<rparr>))]\<rparr>)
   \<and> Inr (Val (PromiseMsg ex_reject_promise))
        \<in> set (received ex_reject_transport
                  \<lparr>inbox = [],
                   outbox = [Broadcasted (Val (PrepareMsg \<lparr>prepProposalNumber = ex_round1,
                      prepFrom = ''n0''\<rparr>))]\<rparr>)
   \<and> currentProposal (attempt_start
        ((attempt_start (NewProposer ''n0'' 3))\<lparr>promise := [ex_dup_promise], highestRound := 3\<rparr>)) =
       \<lparr>Round = 4, ProposerID = ''n0''\<rparr>"
  using next_proposal_exceeds [where p = "attempt_start (NewProposer ''n0'' 3)" and hs = ex_seen
      and t = ex_reject_transport and pre = "[Inr (Val (PromiseMsg ex_dup_promise))]"
      and pr = ex_reject_promise and rest = "[]" and ?p0.0 = "NewProposer ''n0'' 3"
      and ?r1.0 = "Some ErrRejected"
      and ?p1.0 = "(attempt_start (NewProposer ''n0'' 3))\<lparr>promise := [ex_dup_promise], highestRound := 3\<rparr>"
      and ?t1.0 = "\<lparr>inbox = [],
                   outbox = [Broadcasted (Val (PrepareMsg \<lparr>prepProposalNumber = ex_round1,
                      prepFrom = ''n0''\<rparr>))]\<rparr>"]
  by (simp add: run_defs ex_seen_def ex_reject_promise_def ex_reject_transport_def ex_dup_defs
        received_def)

subsection \<open>A rejection in Phase 2\<close>

text \<open>
  C5, as stated, fails: \<^verbatim>\<open>runPhase2\<close> returns \<^verbatim>\<open>ErrRejected\<close> without calling
  \<^verbatim>\<open>handleRejection\<close>, and an \<^verbatim>\<open>Accepted\<close> has no field that could report what the acceptor has
  seen. Acceptor \<open>a2\<close>, which has promised \<open>(7, n2)\<close>, rejects the Accept for \<open>(1, n0)\<close>; the
  proposer's \<^verbatim>\<open>highestRound\<close> stays 1 (not 7), and its next proposal is \<open>(2, n0)\<close>.
\<close>

theorem phase2_rejection_ignores_highest_seen:
  "highestPromised ex_acceptor = \<lparr>Round = 7, ProposerID = ''n2''\<rparr>
   \<and> fst (HandleAccept ex_acceptor ex_accept) = ex_rejected
   \<and> runPhase2 ex_phase2_proposer \<lparr>inbox = [Inr (Val (AcceptedMsg ex_rejected))], outbox = []\<rparr> =
       (Some ErrRejected, ex_phase2_proposer,
        \<lparr>inbox = [], outbox = [Broadcasted (Val (AcceptMsg ex_accept))]\<rparr>)
   \<and> sint (highestRound ex_phase2_proposer) = 1
   \<and> max (sint (highestRound ex_phase2_proposer)) (sint (Round (highestPromised ex_acceptor))) = 7
   \<and> currentProposal (attempt_start ex_phase2_proposer) = \<lparr>Round = 2, ProposerID = ''n0''\<rparr>"
  by (simp add: phase2_loop.simps run_defs ex_acceptor_def ex_accept_def ex_rejected_def
        ex_phase2_proposer_def ex_round1_def acceptor_defs)

text \<open>
  C5, amended: whatever \<^verbatim>\<open>runPhase2\<close> receives and however it ends, it leaves the proposer,
  and so \<^verbatim>\<open>highestRound\<close>, as it was. An \<^verbatim>\<open>Accepted\<close> for the current proposal with
  \<^verbatim>\<open>OK = false\<close> among the messages Phase 2 receives makes it return \<^verbatim>\<open>ErrRejected\<close>. Such a
  message is received whenever it comes before the quorum is complete, after any stretch
  of messages that holds no receive error and no earlier rejection; \<^verbatim>\<open>runPhase2\<close> then
  returns with the proposer unchanged and no Learn sent, \<^verbatim>\<open>Propose\<close> restarts from Phase 1
  with that proposer, and the proposal of the restart has round \<^verbatim>\<open>highestRound + 1\<close>.
\<close>

theorem phase2_leaves_round_hint:
  "(runPhase2 p t = (r, p', t') \<longrightarrow>
      p' = p \<and> highestRound p' = highestRound p
      \<and> Round (currentProposal (attempt_start p')) = highestRound p + 1
      \<and> (0 < quorumSize p \<and> inbox t = Inr (Val (AcceptedMsg a)) # rest
           \<and> Equal (acdProposalNumber a) (currentProposal p) \<and> \<not> acdOK a
         \<longrightarrow> r = Some ErrRejected)
      \<and> (Inr (Val (AcceptedMsg a)) \<in> set (received t t')
           \<and> Equal (acdProposalNumber a) (currentProposal p) \<and> \<not> acdOK a
         \<longrightarrow> r = Some ErrRejected))
   \<and> (inbox u = pre @ Inr (Val (AcceptedMsg b)) # rest2
        \<and> quietAccepteds (currentProposal q) pre
        \<and> int (length (okAccepteds (currentProposal q) pre)) < quorumSize q
        \<and> Equal (acdProposalNumber b) (currentProposal q) \<and> \<not> acdOK b \<longrightarrow>
      runPhase2 q u =
        (Some ErrRejected, q,
         \<lparr>inbox = rest2,
          outbox = outbox u @
            [Broadcasted (Val (AcceptMsg \<lparr>accProposalNumber = currentProposal q,
               accValue = valueToPropose q, accFrom = idP q\<rparr>))]\<rparr>)
      \<and> currentProposal (attempt_start q) = \<lparr>Round = highestRound q + 1, ProposerID = idP q\<rparr>
      \<and> (runPhase1 (attempt_start q0) u0 = (None, q, u) \<longrightarrow>
           propose_loop q0 u0 =
             propose_loop q
               \<lparr>inbox = rest2,
                outbox = outbox u @
                  [Broadcasted (Val (AcceptMsg \<lparr>accProposalNumber = currentProposal q,
                     accValue = valueToPropose q, accFrom = idP q\<rparr>))]\<rparr>))"
proof -
  have first: "p' = p \<and> highestRound p' = highestRound p
      \<and> Round (currentProposal (attempt_start p')) = highestRound p + 1
      \<and> (0 < quorumSize p \<and> inbox t = Inr (Val (AcceptedMsg a)) # rest
           \<and> Equal (acdProposalNumber a) (currentProposal p) \<and> \<not> acdOK a
         \<longrightarrow> r = Some ErrRejected)
      \<and> (Inr (Val (AcceptedMsg a)) \<in> set (received t t')
           \<and> Equal (acdProposalNumber a) (currentProposal p) \<and> \<not> acdOK a
         \<longrightarrow> r = Some ErrRejected)"
    if run: "runPhase2 p t = (r, p', t')"
  proof -
    note taken = runPhase2_takes_rejection [OF run, of a]
    have same: "p' = p" using run by (rule runPhase2_frame(1))
    have "r = Some ErrRejected"
      if "0 < quorumSize p" "inbox t = Inr (Val (AcceptedMsg a)) # rest"
        "Equal (acdProposalNumber a) (currentProposal p)" "\<not> acdOK a"
    proof -
      have "inbox t = [] @ Inr (Val (AcceptedMsg a)) # rest" using that(2) by simp
      from runPhase2_rejected [OF this _ that(3,4)] that(1) run show ?thesis by simp
    qed
    with same taken show ?thesis
      by (simp add: attempt_start_def generateProposalNumber_def Let_def)
  qed
  have second: "runPhase2 q u =
        (Some ErrRejected, q,
         \<lparr>inbox = rest2,
          outbox = outbox u @
            [Broadcasted (Val (AcceptMsg \<lparr>accProposalNumber = currentProposal q,
               accValue = valueToPropose q, accFrom = idP q\<rparr>))]\<rparr>)
      \<and> currentProposal (attempt_start q) = \<lparr>Round = highestRound q + 1, ProposerID = idP q\<rparr>
      \<and> (runPhase1 (attempt_start q0) u0 = (None, q, u) \<longrightarrow>
           propose_loop q0 u0 =
             propose_loop q
               \<lparr>inbox = rest2,
                outbox = outbox u @
                  [Broadcasted (Val (AcceptMsg \<lparr>accProposalNumber = currentProposal q,
                     accValue = valueToPropose q, accFrom = idP q\<rparr>))]\<rparr>)"
    if h: "inbox u = pre @ Inr (Val (AcceptedMsg b)) # rest2"
      "quietAccepteds (currentProposal q) pre"
      "int (length (okAccepteds (currentProposal q) pre)) < quorumSize q"
      "Equal (acdProposalNumber b) (currentProposal q)" "\<not> acdOK b"
  proof -
    note R = runPhase2_rejected [OF h(1,2,4,5,3)]
    have "propose_loop q0 u0 =
             propose_loop q
               \<lparr>inbox = rest2,
                outbox = outbox u @
                  [Broadcasted (Val (AcceptMsg \<lparr>accProposalNumber = currentProposal q,
                     accValue = valueToPropose q, accFrom = idP q\<rparr>))]\<rparr>"
      if "runPhase1 (attempt_start q0) u0 = (None, q, u)"
      using that R by (subst propose_loop.simps) simp
    with R show ?thesis
      by (simp add: attempt_start_def generateProposalNumber_def Let_def)
  qed
  from first second show ?thesis by blast
qed

text \<open>
  The rejection of \<open>a2\<close> as the only message of Phase 2; and, in the variant of round 1
  above, the rejection of \<open>a2\<close> between the Accepteds of \<open>a1\<close> and \<open>a3\<close>.
\<close>

theorem phase2_leaves_round_hint_witness:
  "runPhase2 ex_phase2_proposer \<lparr>inbox = [Inr (Val (AcceptedMsg ex_rejected))], outbox = []\<rparr> =
       (Some ErrRejected, ex_phase2_proposer,
        \<lparr>inbox = [], outbox = [Broadcasted (Val (AcceptMsg ex_accept))]\<rparr>)
   \<and> 0 < quorumSize ex_phase2_proposer
   \<and> Equal (acdProposalNumber ex_rejected) (currentProposal ex_phase2_proposer)
   \<and> \<not> acdOK ex_rejected
   \<and> Inr (Val (AcceptedMsg ex_rejected))
        \<in> set (received \<lparr>inbox = [Inr (Val (AcceptedMsg ex_rejected))], outbox = []\<rparr>
                  \<lparr>inbox = [], outbox = [Broadcasted (Val (AcceptMsg ex_accept))]\<rparr>)
   \<and> highestRound ex_phase2_proposer = 1
   \<and> Round (currentProposal (attempt_start ex_phase2_proposer)) = 2
   \<and> runPhase1 (attempt_start ex_client) ex_mid_transport =
       (None, ex_after_round1,
        \<lparr>inbox = ex_mid_accepteds,
         outbox = [Broadcasted (Val (PrepareMsg \<lparr>prepProposalNumber = ex_round1, prepFrom = ''n0''\<rparr>))]\<rparr>)
   \<and> ex_mid_accepteds =
       [Inr (Val (AcceptedMsg (ex_accepted ex_round1 [65] ''a1'' True)))]
       @ Inr (Val (AcceptedMsg (ex_accepted ex_round1 [] ''a2'' False)))
       # [Inr (Val (AcceptedMsg (ex_accepted ex_round1 [65] ''a3'' True)))]
   \<and> quietAccepteds ex_round1 [Inr (Val (AcceptedMsg (ex_accepted ex_round1 [65] ''a1'' True)))]
   \<and> int (length (okAccepteds ex_round1
        [Inr (Val (AcceptedMsg (ex_accepted ex_round1 [65] ''a1'' True)))])) < quorumSize ex_after_round1
   \<and> runPhase2 ex_after_round1
        \<lparr>inbox = ex_mid_accepteds,
         outbox = [Broadcasted (Val (PrepareMsg \<lparr>prepProposalNumber = ex_round1, prepFrom = ''n0''\<rparr>))]\<rparr> =
       (Some ErrRejected, ex_after_round1,
        \<lparr>inbox = [Inr (Val (AcceptedMsg (ex_accepted ex_round1 [65] ''a3'' True)))],
         outbox = [Broadcasted (Val (PrepareMsg \<lparr>prepProposalNumber = ex_round1, prepFrom = ''n0''\<rparr>)),
                   Broadcasted (Val (AcceptMsg \<lparr>accProposalNumber = ex_round1, accValue = [65],
                      accFrom = ''n0''\<rparr>))]\<rparr>)
   \<and> currentProposal (attempt_start ex_after_round1) = ex_round2"
  using phase2_leaves_round_hint [where p = ex_phase2_proposer
      and t = "\<lparr>inbox = [Inr (Val (AcceptedMsg ex_rejected))], outbox = []\<rparr>"
      and r = "Some ErrRejected" and p' = ex_phase2_proposer
      and t' = "\<lparr>inbox = [], outbox = [Broadcasted (Val (AcceptMsg ex_accept))]\<rparr>"
      and a = ex_rejected and rest = "[]"
      and q = ex_after_round1
      and u = "\<lparr>inbox = ex_mid_accepteds,
         outbox = [Broadcasted (Val (PrepareMsg \<lparr>prepProposalNumber = ex_round1, prepFrom = ''n0''\<rparr>))]\<rparr>"
      and pre = "[Inr (Val (AcceptedMsg (ex_accepted ex_round1 [65] ''a1'' True)))]"
      and b = "ex_accepted ex_round1 [] ''a2'' False"
      and ?rest2.0 = "[Inr (Val (AcceptedMsg (ex_accepted ex_round1 [65] ''a3'' True)))]"
      and ?q0.0 = ex_client and ?u0.0 = ex_mid_transport]
  by (simp add: phase1_loop.simps phase2_loop.simps run_defs ex_accept_def ex_rejected_def
        ex_phase2_proposer_def ex_carry_defs ex_mid_accepteds_def ex_mid_transport_def
        received_def)

subsection \<open>The order of proposal numbers\<close>

lemma GreaterThan_irrefl: "\<not> GreaterThan a a"
  by (simp add: GreaterThan_def)

lemma GreaterThan_trans: "GreaterThan a b \<Longrightarrow> GreaterThan b c \<Longrightarrow> GreaterThan a c"
  by (auto simp: GreaterThan_def word_sless_alt)

lemma GreaterThan_asym: "GreaterThan a b \<Longrightarrow> \<not> GreaterThan b a"
  by (auto simp: GreaterThan_def word_sless_alt)

lemma sint_inject64: "sint (x :: int64) = sint y \<Longrightarrow> x = y"
  by (rule signed_word_eqI)

lemma GreaterThan_total: "GreaterThan a b \<or> Equal a b \<or> GreaterThan b a"
proof -
  have "sint (Round a) < sint (Round b) \<or> sint (Round a) = sint (Round b) \<or> sint (Round b) < sint (Round a)"
    by linarith
  moreover have "ProposerID a < ProposerID b \<or> ProposerID a = ProposerID b \<or> ProposerID b < ProposerID a"
    by (rule less_linear)
  ultimately show ?thesis
    unfolding GreaterThan_def Equal_def word_sless_alt
    by (metis sint_inject64)
qed

lemma IsZero_iff: "IsZero a \<longleftrightarrow> a = zeroProposal"
  by (cases a) (auto simp: IsZero_def zeroProposal_def)

lemma GreaterThan_zero:
  assumes "\<not> IsZero a" and "0 \<le>s Round a"
  shows "GreaterThan a zeroProposal"
proof (cases "Round a = 0")
  case True
  with assms(1) have "ProposerID a \<noteq> []" by (simp add: IsZero_def)
  then have "[] < ProposerID a" by (cases "ProposerID a") simp_all
  with True show ?thesis by (simp add: GreaterThan_def zeroProposal_def)
next
  case False
  then have "sint (Round a) \<noteq> 0" using sint_inject64 [of "Round a" 0] by auto
  with assms(2) have "0 <s Round a"
    by (simp add: word_sless_alt word_sle_eq)
  then show ?thesis by (simp add: GreaterThan_def zeroProposal_def)
qed

subsection \<open>Value adoption\<close>

text \<open>
  The adoption loop either keeps what it was given (no promise reports an accept above the
  running maximum), or ends on the accepted value of a promise that no other promise
  exceeds.
\<close>

lemma adopt_loop_result:
  "adopt_loop prs ha v = (ha, v) \<and>
     (\<forall>r\<in>set prs. IsZero (promAcceptedProposal r) \<or> \<not> GreaterThan (promAcceptedProposal r) ha)
   \<or> (\<exists>q\<in>set prs. \<not> IsZero (promAcceptedProposal q)
        \<and> adopt_loop prs ha v = (promAcceptedProposal q, promAcceptedValue q)
        \<and> GreaterThan (promAcceptedProposal q) ha
        \<and> (\<forall>r\<in>set prs. IsZero (promAcceptedProposal r)
              \<or> \<not> GreaterThan (promAcceptedProposal r) (promAcceptedProposal q)))"
proof (induction prs arbitrary: ha v)
  case Nil
  show ?case by simp
next
  case (Cons pr prs)
  let ?a = "promAcceptedProposal pr"
  show ?case
  proof (cases "\<not> IsZero ?a \<and> GreaterThan ?a ha")
    case True
    then have step: "adopt_loop (pr # prs) ha v = adopt_loop prs ?a (promAcceptedValue pr)"
      by simp
    note adopt_loop.simps [simp del]
    from Cons.IH [of ?a "promAcceptedValue pr"] show ?thesis
    proof
      assume "adopt_loop prs ?a (promAcceptedValue pr) = (?a, promAcceptedValue pr) \<and>
        (\<forall>r\<in>set prs. IsZero (promAcceptedProposal r) \<or> \<not> GreaterThan (promAcceptedProposal r) ?a)"
      with True step have "\<not> IsZero ?a
        \<and> adopt_loop (pr # prs) ha v = (?a, promAcceptedValue pr) \<and> GreaterThan ?a ha
        \<and> (\<forall>r\<in>set (pr # prs). IsZero (promAcceptedProposal r) \<or> \<not> GreaterThan (promAcceptedProposal r) ?a)"
        by (simp add: GreaterThan_irrefl)
      then show ?thesis by (intro disjI2 bexI [of _ pr]) (auto simp: GreaterThan_irrefl)
    next
      assume "\<exists>q\<in>set prs. \<not> IsZero (promAcceptedProposal q)
        \<and> adopt_loop prs ?a (promAcceptedValue pr) = (promAcceptedProposal q, promAcceptedValue q)
        \<and> GreaterThan (promAcceptedProposal q) ?a
        \<and> (\<forall>r\<in>set prs. IsZero (promAcceptedProposal r)
              \<or> \<not> GreaterThan (promAcceptedProposal r) (promAcceptedProposal q))"
      then obtain q where q: "q \<in> set prs" "\<not> IsZero (promAcceptedProposal q)"
        "adopt_loop prs ?a (promAcceptedValue pr) = (promAcceptedProposal q, promAcceptedValue q)"
        "GreaterThan (promAcceptedProposal q) ?a"
        "\<forall>r\<in>set prs. IsZero (promAcceptedProposal r)
              \<or> \<not> GreaterThan (promAcceptedProposal r) (promAcceptedProposal q)"
        by blast
      have "GreaterThan (promAcceptedProposal q) ha"
        using q(4) True by (blast intro: GreaterThan_trans)
      moreover have "\<not> GreaterThan ?a (promAcceptedProposal q)"
        using q(4) by (rule GreaterThan_asym)
      ultimately have "\<not> IsZero (promAcceptedProposal q)
        \<and> adopt_loop (pr # prs) ha v = (promAcceptedProposal q, promAcceptedValue q)
        \<and> GreaterThan (promAcceptedProposal q) ha
        \<and> (\<forall>r\<in>set (pr # prs). IsZero (promAcceptedProposal r)
              \<or> \<not> GreaterThan (promAcceptedProposal r) (promAcceptedProposal q))"
        using q step by simp
      with q(1) show ?thesis by (intro disjI2 bexI [of _ q]) auto
    qed
  next
    case False
    then have step: "adopt_loop (pr # prs) ha v = adopt_loop prs ha v"
      by auto
    note adopt_loop.simps [simp del]
    from Cons.IH [of ha v] show ?thesis
    proof
      assume "adopt_loop prs ha v = (ha, v) \<and>
        (\<forall>r\<in>set prs. IsZero (promAcceptedProposal r) \<or> \<not> GreaterThan (promAcceptedProposal r) ha)"
      with False step show ?thesis by auto
    next
      assume "\<exists>q\<in>set prs. \<not> IsZero (promAcceptedProposal q)
        \<and> adopt_loop prs ha v = (promAcceptedProposal q, promAcceptedValue q)
        \<and> GreaterThan (promAcceptedProposal q) ha
        \<and> (\<forall>r\<in>set prs. IsZero (promAcceptedProposal r)
              \<or> \<not> GreaterThan (promAcceptedProposal r) (promAcceptedProposal q))"
      then obtain q where q: "q \<in> set prs" "\<not> IsZero (promAcceptedProposal q)"
        "adopt_loop prs ha v = (promAcceptedProposal q, promAcceptedValue q)"
        "GreaterThan (promAcceptedProposal q) ha"
        "\<forall>r\<in>set prs. IsZero (promAcceptedProposal r)
              \<or> \<not> GreaterThan (promAcceptedProposal r) (promAcceptedProposal q)"
        by blast
      have "IsZero ?a \<or> \<not> GreaterThan ?a (promAcceptedProposal q)"
        using False q(4) by (blast intro: GreaterThan_trans)
      then have "\<not> IsZero (promAcceptedProposal q)
        \<and> adopt_loop (pr # prs) ha v = (promAcceptedProposal q, promAcceptedValue q)
        \<and> GreaterThan (promAcceptedProposal q) ha
        \<and> (\<forall>r\<in>set (pr # prs). IsZero (promAcceptedProposal r)
              \<or> \<not> GreaterThan (promAcceptedProposal r) (promAcceptedProposal q))"
        using q step by simp
      with q(1) show ?thesis by (intro disjI2 bexI [of _ q]) auto
    qed
  qed
qed

lemma adopt_loop_from_zero:
  assumes nonneg: "\<forall>pr\<in>set prs. 0 \<le>s Round (promAcceptedProposal pr)"
  shows "if \<exists>pr\<in>set prs. \<not> IsZero (promAcceptedProposal pr)
         then \<exists>q\<in>set prs. \<not> IsZero (promAcceptedProposal q)
                \<and> snd (adopt_loop prs zeroProposal v) = promAcceptedValue q
                \<and> (\<forall>r\<in>set prs. \<not> GreaterThan (promAcceptedProposal r) (promAcceptedProposal q))
         else snd (adopt_loop prs zeroProposal v) = v"
proof (cases "\<exists>pr\<in>set prs. \<not> IsZero (promAcceptedProposal pr)")
  case False
  with adopt_loop_result [of prs zeroProposal v] show ?thesis
    by auto
next
  case True
  then obtain pr where pr: "pr \<in> set prs" "\<not> IsZero (promAcceptedProposal pr)" by blast
  with nonneg have "GreaterThan (promAcceptedProposal pr) zeroProposal"
    by (blast intro: GreaterThan_zero)
  with pr adopt_loop_result [of prs zeroProposal v]
  obtain q where q: "q \<in> set prs" "\<not> IsZero (promAcceptedProposal q)"
    "adopt_loop prs zeroProposal v = (promAcceptedProposal q, promAcceptedValue q)"
    "GreaterThan (promAcceptedProposal q) zeroProposal"
    "\<forall>r\<in>set prs. IsZero (promAcceptedProposal r)
        \<or> \<not> GreaterThan (promAcceptedProposal r) (promAcceptedProposal q)"
    by blast
  have "\<not> GreaterThan (promAcceptedProposal r) (promAcceptedProposal q)" if "r \<in> set prs" for r
  proof (cases "IsZero (promAcceptedProposal r)")
    case True
    then show ?thesis using q(4) by (auto simp: IsZero_iff dest: GreaterThan_asym)
  next
    case False
    with q(5) that show ?thesis by blast
  qed
  with q True show ?thesis by auto
qed


lemma attempt_start_frame:
  "promise (attempt_start p) = [] \<and> valueToPropose (attempt_start p) = valueToPropose p
   \<and> originalValue (attempt_start p) = originalValue p
   \<and> highestRound (attempt_start p) = highestRound p + 1
   \<and> currentProposal (attempt_start p) = \<lparr>Round = highestRound p + 1, ProposerID = idP p\<rparr>
   \<and> idP (attempt_start p) = idP p \<and> quorumSize (attempt_start p) = quorumSize p"
  by (simp add: attempt_start_def generateProposalNumber_def Let_def)

lemma runPhase1_frame:
  assumes "runPhase1 p t = (r, p', t')"
  shows "idP p' = idP p" and "quorumSize p' = quorumSize p"
    and "currentProposal p' = currentProposal p" and "originalValue p' = originalValue p"
    and "r = None \<Longrightarrow> valueToPropose p' = snd (adopt_loop (promise p') zeroProposal (valueToPropose p))"
    and "r \<noteq> None \<Longrightarrow> valueToPropose p' = valueToPropose p"
    and "highestRound p' = highestRound p \<or> highestRound p <s highestRound p'"
proof -
  let ?t1 = "Broadcast t (Val (PrepareMsg \<lparr>prepProposalNumber = currentProposal p, prepFrom = idP p\<rparr>))"
  obtain r1 q t1 where L: "phase1_loop p 0 ?t1 = (r1, q, t1)" by (cases "phase1_loop p 0 ?t1")
  note F = phase1_loop_frame [OF refl L]
  from assms L have p': "p' = (if r1 = None
        then q\<lparr>valueToPropose := snd (adopt_loop (promise q) zeroProposal (valueToPropose q))\<rparr> else q)"
    and r: "r = r1"
    by (auto simp: runPhase1_def Let_def split: option.splits)
  show "idP p' = idP p" "quorumSize p' = quorumSize p" "currentProposal p' = currentProposal p"
    "originalValue p' = originalValue p"
    "highestRound p' = highestRound p \<or> highestRound p <s highestRound p'"
    using F p' by auto
  show "valueToPropose p' = snd (adopt_loop (promise p') zeroProposal (valueToPropose p))" if "r = None"
    using that F p' r by auto
  show "valueToPropose p' = valueToPropose p" if "r \<noteq> None"
    using that F p' r by auto
qed

lemma runPhase2_outbox:
  assumes "runPhase2 p t = (r, p', t')"
  shows "outbox t' = outbox t
     @ Broadcasted (Val (AcceptMsg \<lparr>accProposalNumber = currentProposal p,
          accValue = valueToPropose p, accFrom = idP p\<rparr>))
     # (if r = None
        then [Broadcasted (Val (LearnMsg \<lparr>lrnProposalNumber = currentProposal p,
                lrnValue = valueToPropose p, lrnFrom = idP p\<rparr>))]
        else [])"
proof -
  let ?t1 = "Broadcast t (Val (AcceptMsg \<lparr>accProposalNumber = currentProposal p,
               accValue = valueToPropose p, accFrom = idP p\<rparr>))"
  obtain r1 t1 where L: "phase2_loop p 0 ?t1 = (r1, t1)" by (cases "phase2_loop p 0 ?t1")
  from phase2_loop_frame [OF refl L] have "outbox t1 = outbox ?t1" by simp
  with assms L show ?thesis
    by (auto simp: runPhase2_def Let_def Broadcast_def split: option.splits)
qed

text \<open>
  The messages of the run below are the ones the acceptors send in it.
\<close>

lemma carry_run_messages:
  "fst (HandlePrepare ex_a1 (ex_prepare_of ex_round1)) =
     ex_promise ex_round1 \<lparr>Round = 1, ProposerID = ''m''\<rparr> [65] ''a1''
   \<and> fst (HandlePrepare (ex_fresh ''a2'') (ex_prepare_of ex_round1)) =
     ex_promise ex_round1 zeroProposal [] ''a2''
   \<and> fst (HandleAccept ex_a2 (ex_accept_of ex_round1 [65])) = ex_accepted ex_round1 [] ''a2'' False
   \<and> fst (HandlePrepare ex_a2 (ex_prepare_of ex_round2)) = ex_promise ex_round2 zeroProposal [] ''a2''
   \<and> fst (HandlePrepare ex_a3 (ex_prepare_of ex_round2)) = ex_promise ex_round2 zeroProposal [] ''a3''
   \<and> fst (HandleAccept (snd (HandlePrepare ex_a2 (ex_prepare_of ex_round2))) (ex_accept_of ex_round2 [65])) =
     ex_accepted ex_round2 [65] ''a2'' True
   \<and> fst (HandleAccept (snd (HandlePrepare ex_a3 (ex_prepare_of ex_round2))) (ex_accept_of ex_round2 [65])) =
     ex_accepted ex_round2 [65] ''a3'' True"
  by (simp add: ex_a1_def ex_a2_def ex_a3_def ex_fresh_def ex_prepare_of_def ex_accept_of_def
        acceptor_defs run_defs ex_carry_defs)

text \<open>
  C1 on the code. The client of \<open>n0\<close> proposes \<open>B\<close>. Round 1 adopts \<open>A\<close> from the Promise of
  \<open>a1\<close> and is then rejected in Phase 2. In round 2 neither gathered Promise reports a prior
  accept, so the Accept and the Learn of round 2 should carry the client's \<open>B\<close>; they carry
  \<open>A\<close>, and \<^verbatim>\<open>Propose\<close> returns \<open>A\<close>. \<^verbatim>\<open>originalValue\<close> still holds \<open>B\<close>: the loop of
  \<^verbatim>\<open>Propose\<close> never reads it, and so never puts it back into \<^verbatim>\<open>valueToPropose\<close>.
\<close>

theorem carried_value_is_broadcast:
  "Propose (NewProposer ''n0'' 2) ex_carry_transport [66] =
     Some ([65], ex_carry_final, \<lparr>inbox = [], outbox = ex_carry_outbox\<rparr>)
   \<and> map promAcceptedProposal (promise ex_carry_final) = [zeroProposal, zeroProposal]
   \<and> originalValue ex_carry_final = [66]
   \<and> valueToPropose ex_carry_final \<noteq> originalValue ex_carry_final"
  by (simp add: propose_loop.simps phase1_loop.simps phase2_loop.simps run_defs ex_carry_defs)

text \<open>
  What one Phase 1 attempt does with the value. Whenever Phase 1 ends with a quorum (the
  gathered promises have rounds that are not negative, as the data model says): if some
  gathered Promise reports a prior accept, \<^verbatim>\<open>valueToPropose\<close> is the accepted value of a
  gathered Promise whose \<^verbatim>\<open>AcceptedProposal\<close> no gathered Promise exceeds; if none does,
  \<^verbatim>\<open>runPhase1\<close> leaves \<^verbatim>\<open>valueToPropose\<close> as it found it, which on the first attempt of a
  \<^verbatim>\<open>Propose\<close> call is the client's value \<open>v\<close>. \<^verbatim>\<open>originalValue\<close> is untouched. Phase 2
  broadcasts that \<^verbatim>\<open>valueToPropose\<close> in its Accept and, when it ends with a quorum, in its
  Learn.
\<close>

theorem phase1_adopts_highest_accepted:
  assumes "runPhase1 p t = (None, p1, t1)"
    and "runPhase2 p1 t1 = (r, p2, t2)"
    and "\<forall>pr\<in>set (promise p1). 0 \<le>s Round (promAcceptedProposal pr)"
  shows "(if \<exists>pr\<in>set (promise p1). \<not> IsZero (promAcceptedProposal pr)
          then \<exists>q\<in>set (promise p1). \<not> IsZero (promAcceptedProposal q)
                 \<and> valueToPropose p1 = promAcceptedValue q
                 \<and> (\<forall>pr\<in>set (promise p1).
                        \<not> GreaterThan (promAcceptedProposal pr) (promAcceptedProposal q))
          else valueToPropose p1 = valueToPropose p)
       \<and> originalValue p1 = originalValue p
       \<and> valueToPropose (attempt_start (p0\<lparr>originalValue := v, valueToPropose := v\<rparr>)) = v
       \<and> outbox t2 = outbox t1
           @ Broadcasted (Val (AcceptMsg \<lparr>accProposalNumber = currentProposal p1,
                accValue = valueToPropose p1, accFrom = idP p1\<rparr>))
           # (if r = None
              then [Broadcasted (Val (LearnMsg \<lparr>lrnProposalNumber = currentProposal p1,
                      lrnValue = valueToPropose p1, lrnFrom = idP p1\<rparr>))]
              else [])"
proof -
  have v: "valueToPropose p1 = snd (adopt_loop (promise p1) zeroProposal (valueToPropose p))"
    using assms(1) by (rule runPhase1_frame(5)) simp
  from adopt_loop_from_zero [OF assms(3), of "valueToPropose p"] v
  have "if \<exists>pr\<in>set (promise p1). \<not> IsZero (promAcceptedProposal pr)
          then \<exists>q\<in>set (promise p1). \<not> IsZero (promAcceptedProposal q)
                 \<and> valueToPropose p1 = promAcceptedValue q
                 \<and> (\<forall>pr\<in>set (promise p1).
                        \<not> GreaterThan (promAcceptedProposal pr) (promAcceptedProposal q))
          else valueToPropose p1 = valueToPropose p"
    by simp
  moreover have "originalValue p1 = originalValue p"
    using assms(1) by (rule runPhase1_frame(4))
  moreover have "valueToPropose (attempt_start (p0\<lparr>originalValue := v, valueToPropose := v\<rparr>)) = v"
    by (simp add: attempt_start_frame)
  moreover note runPhase2_outbox [OF assms(2)]
  ultimately show ?thesis by blast
qed

theorem phase1_adopts_highest_accepted_witness:
  "runPhase1 (attempt_start ex_client) ex_carry_transport =
     (None, ex_after_round1,
      \<lparr>inbox = drop 2 ex_carry_round1 @ ex_carry_round2, outbox = take 1 ex_carry_outbox\<rparr>)
   \<and> runPhase2 ex_after_round1
       \<lparr>inbox = drop 2 ex_carry_round1 @ ex_carry_round2, outbox = take 1 ex_carry_outbox\<rparr> =
     (Some ErrRejected, ex_after_round1, \<lparr>inbox = ex_carry_round2, outbox = take 2 ex_carry_outbox\<rparr>)
   \<and> map promAcceptedProposal (promise ex_after_round1) =
       [\<lparr>Round = 1, ProposerID = ''m''\<rparr>, zeroProposal]
   \<and> valueToPropose (attempt_start ex_client) = [66]
   \<and> valueToPropose ex_after_round1 = [65]"
  using phase1_adopts_highest_accepted [of "attempt_start ex_client" ex_carry_transport
      ex_after_round1
      "\<lparr>inbox = drop 2 ex_carry_round1 @ ex_carry_round2, outbox = take 1 ex_carry_outbox\<rparr>"
      "Some ErrRejected" ex_after_round1
      "\<lparr>inbox = ex_carry_round2, outbox = take 2 ex_carry_outbox\<rparr>"]
  by (simp add: phase1_loop.simps phase2_loop.simps run_defs ex_carry_defs)

subsection \<open>Restarting Phase 1\<close>

text \<open>
  C4 on the code: the loop of \<^verbatim>\<open>Propose\<close> resets \<^verbatim>\<open>promise\<close> and nothing else. In the run
  above, Phase 1 of round 1 adopts \<open>A\<close>, Phase 2 is rejected, and the second Phase 1 attempt
  starts with no promises but with \<^verbatim>\<open>valueToPropose = A\<close>, while \<^verbatim>\<open>originalValue\<close> is \<open>B\<close>.
\<close>

theorem adopted_value_survives_restart:
  "runPhase1 (attempt_start ex_client) ex_carry_transport =
     (None, ex_after_round1,
      \<lparr>inbox = drop 2 ex_carry_round1 @ ex_carry_round2, outbox = take 1 ex_carry_outbox\<rparr>)
   \<and> runPhase2 ex_after_round1
       \<lparr>inbox = drop 2 ex_carry_round1 @ ex_carry_round2, outbox = take 1 ex_carry_outbox\<rparr> =
     (Some ErrRejected, ex_after_round1, \<lparr>inbox = ex_carry_round2, outbox = take 2 ex_carry_outbox\<rparr>)
   \<and> promise (attempt_start ex_after_round1) = []
   \<and> originalValue (attempt_start ex_after_round1) = [66]
   \<and> valueToPropose (attempt_start ex_after_round1) = [65]"
  by (simp add: phase1_loop.simps phase2_loop.simps run_defs ex_carry_defs)

text \<open>
  Within one \<^verbatim>\<open>Propose\<close> call the proposals of successive attempts strictly increase: whether
  an attempt ends in Phase 1 or in Phase 2, the proposal of the next attempt is greater
  than its own, as long as \<^verbatim>\<open>highestRound\<close> has not reached the largest \<^verbatim>\<open>int64\<close>.
\<close>

theorem successive_attempts_increase:
  assumes "runPhase1 (attempt_start p) t = (r, p1, t1)"
    and "runPhase2 p1 t1 = (r', p2, t2)"
    and "sint (highestRound p1) < 2 ^ 63 - 1"
  shows "GreaterThan (currentProposal (attempt_start p1)) (currentProposal (attempt_start p))
       \<and> GreaterThan (currentProposal (attempt_start p2)) (currentProposal (attempt_start p))
       \<and> ProposerID (currentProposal (attempt_start p1)) = idP p"
proof -
  note F = runPhase1_frame [OF assms(1)]
  have p2: "p2 = p1" using assms(2) by (rule runPhase2_frame(1))
  have cur: "currentProposal (attempt_start p) = \<lparr>Round = highestRound (attempt_start p), ProposerID = idP p\<rparr>"
    by (simp add: attempt_start_frame)
  have nxt: "currentProposal (attempt_start p1) = \<lparr>Round = highestRound p1 + 1, ProposerID = idP p\<rparr>"
    using F(1) by (simp add: attempt_start_frame)
  have "sint (highestRound (attempt_start p)) \<le> sint (highestRound p1)"
    using F(7) by (auto simp: word_sless_alt)
  moreover have "sint (highestRound p1 + 1) = sint (highestRound p1) + 1"
    using assms(3) by (rule sint_succ64)
  ultimately have "highestRound (attempt_start p) <s highestRound p1 + 1"
    by (simp add: word_sless_alt)
  then show ?thesis
    using cur nxt p2 by (simp add: GreaterThan_def)
qed

theorem successive_attempts_increase_witness:
  "runPhase1 (attempt_start ex_client) ex_carry_transport =
     (None, ex_after_round1,
      \<lparr>inbox = drop 2 ex_carry_round1 @ ex_carry_round2, outbox = take 1 ex_carry_outbox\<rparr>)
   \<and> runPhase2 ex_after_round1
       \<lparr>inbox = drop 2 ex_carry_round1 @ ex_carry_round2, outbox = take 1 ex_carry_outbox\<rparr> =
     (Some ErrRejected, ex_after_round1, \<lparr>inbox = ex_carry_round2, outbox = take 2 ex_carry_outbox\<rparr>)
   \<and> sint (highestRound ex_after_round1) < 2 ^ 63 - 1
   \<and> currentProposal (attempt_start ex_client) = ex_round1
   \<and> currentProposal (attempt_start ex_after_round1) = ex_round2
   \<and> GreaterThan ex_round2 ex_round1"
  using successive_attempts_increase [of ex_client ex_carry_transport None ex_after_round1
      "\<lparr>inbox = drop 2 ex_carry_round1 @ ex_carry_round2, outbox = take 1 ex_carry_outbox\<rparr>"
      "Some ErrRejected" ex_after_round1
      "\<lparr>inbox = ex_carry_round2, outbox = take 2 ex_carry_outbox\<rparr>"]
  by (simp add: phase1_loop.simps phase2_loop.simps run_defs ex_carry_defs)

subsection \<open>A closed transport\<close>

lemma runPhase1_closed:
  assumes "0 < quorumSize p" and "\<forall>r\<in>set (inbox t). isl r"
  shows "\<exists>e t'. runPhase1 p t = (Some e, p, t') \<and> (\<forall>r\<in>set (inbox t'). isl r)"
proof -
  let ?t1 = "Broadcast t (Val (PrepareMsg \<lparr>prepProposalNumber = currentProposal p, prepFrom = idP p\<rparr>))"
  have ib: "inbox ?t1 = inbox t" by (simp add: Broadcast_def)
  show ?thesis
  proof (cases "inbox t")
    case Nil
    with ib have "phase1_loop p 0 ?t1 = (Some ErrClosed, p, ?t1)"
      using assms(1) by (simp add: phase1_loop_closed)
    then show ?thesis using Nil ib by (simp add: runPhase1_def Let_def)
  next
    case (Cons x xs)
    with assms(2) obtain e where "x = Inl e" by (cases x) auto
    with Cons ib have "phase1_loop p 0 ?t1 = (Some e, p, ?t1\<lparr>inbox := xs\<rparr>)"
      using assms(1) by (simp add: phase1_loop_error)
    then show ?thesis using Cons assms(2) by (simp add: runPhase1_def Let_def)
  qed
qed

lemma propose_loop_returns_only_if_open:
  assumes "propose_loop p t = Some y"
  shows "\<not> (0 < quorumSize p \<and> (\<forall>r\<in>set (inbox t). isl r))"
proof (rule propose_loop.raw_induct [OF _ assms])
  fix f p t and y :: "bytes \<times> Proposer \<times> Transport"
  assume IH: "\<And>p t y. f p t = Some y \<Longrightarrow> \<not> (0 < quorumSize p \<and> (\<forall>r\<in>set (inbox t). isl r))"
    and body: "(case runPhase1 (attempt_start p) t of
                  (None, p1, t1) \<Rightarrow>
                    (case runPhase2 p1 t1 of
                       (None, p2, t2) \<Rightarrow> Some (valueToPropose p2, p2, t2)
                     | (Some err, p2, t2) \<Rightarrow> f p2 t2)
                | (Some err, p1, t1) \<Rightarrow> f p1 t1) = Some y"
  show "\<not> (0 < quorumSize p \<and> (\<forall>r\<in>set (inbox t). isl r))"
  proof
    assume closed: "0 < quorumSize p \<and> (\<forall>r\<in>set (inbox t). isl r)"
    have q: "0 < quorumSize (attempt_start p)"
      using closed by (simp add: attempt_start_def generateProposalNumber_def Let_def)
    from runPhase1_closed [OF q] closed obtain e t' where
      r1: "runPhase1 (attempt_start p) t = (Some e, attempt_start p, t')"
      and c': "\<forall>r\<in>set (inbox t'). isl r"
      by blast
    from body r1 have "f (attempt_start p) t' = Some y" by simp
    from IH [OF this] q c' show False by simp
  qed
qed

lemma propose_loop_closed:
  assumes "0 < quorumSize p" and "\<forall>r\<in>set (inbox t). isl r"
  shows "propose_loop p t = None"
proof (cases "propose_loop p t")
  case None
  then show ?thesis .
next
  case (Some y)
  from propose_loop_returns_only_if_open [OF this] assms show ?thesis by simp
qed

text \<open>
  C3 on the code: on a closed transport (every \<^verbatim>\<open>Receive\<close> fails) Phase 1 returns the
  transport's error, \<^verbatim>\<open>Propose\<close> takes it like a rejection and starts the next round, and so
  on for ever: \<^verbatim>\<open>Propose\<close> does not return, whether the transport is closed when the call
  starts or closes while the call is in Phase 1.
\<close>

theorem Propose_on_closed_transport_never_returns:
  "Propose (NewProposer ''n0'' 3) \<lparr>inbox = [], outbox = []\<rparr> [66] = None
   \<and> fst (runPhase1 (attempt_start (NewProposer ''n0'' 3)) \<lparr>inbox = [], outbox = []\<rparr>) = Some ErrClosed
   \<and> Propose (NewProposer ''n0'' 3)
        \<lparr>inbox = [Inr (Val (PromiseMsg (ex_promise ex_round1 zeroProposal [] ''a2'')))],
         outbox = []\<rparr> [66] = None"
proof -
  have closed: "propose_loop p \<lparr>inbox = [], outbox = ob\<rparr> = None" if "0 < quorumSize p" for p ob
    using that by (rule propose_loop_closed) simp
  have "propose_loop ((NewProposer ''n0'' 3)\<lparr>originalValue := [66], valueToPropose := [66]\<rparr>)
          \<lparr>inbox = [], outbox = []\<rparr> = None"
    by (rule closed) (simp add: NewProposer_def)
  moreover
  have "propose_loop ((NewProposer ''n0'' 3)\<lparr>originalValue := [66], valueToPropose := [66]\<rparr>)
          \<lparr>inbox = [Inr (Val (PromiseMsg (ex_promise ex_round1 zeroProposal [] ''a2'')))],
           outbox = []\<rparr> = None"
    by (subst propose_loop.simps) (simp add: phase1_loop.simps run_defs ex_carry_defs closed)
  ultimately show ?thesis
    by (simp add: phase1_loop.simps run_defs)
qed

subsection \<open>Node dispatch\<close>

text \<open>
  C6, as stated, fails: \<^verbatim>\<open>routeMessage\<close> has no case for a Promise. While the proposer of
  \<open>n0\<close> waits in Phase 1 of round 1 with no promise collected, the receive loop takes the
  matching Promise of \<open>a2\<close> from the transport; the message ends in the \<^verbatim>\<open>default\<close> branch,
  the proposer has still collected nothing, and the transport no longer holds the message.
\<close>

theorem node_discards_Promise:
  "currentProposal (proposer ex_node) = ex_round1
   \<and> promise (proposer ex_node) = []
   \<and> handleMessagesStep ex_node =
       ex_node\<lparr>transport := \<lparr>inbox = [], outbox = []\<rparr>,
               logged := [UnknownMessageType
                            (Val (PromiseMsg (ex_promise ex_round1 zeroProposal [] ''a2'')))]\<rparr>
   \<and> promise (proposer (handleMessagesStep ex_node)) = []
   \<and> inbox (transport (handleMessagesStep ex_node)) = []"
  by (simp add: handleMessagesStep_def routeMessage_def ex_node_def run_defs ex_carry_defs)

text \<open>
  C6, amended: \<^verbatim>\<open>routeMessage\<close> does not deliver a Promise (value or pointer) to the proposer:
  it leaves proposer, acceptor, learner and transport as they are. A Promise the receive
  loop takes from the transport is thereby removed from it and the proposer does not get
  it. The proposer collects a Promise only when its own \<^verbatim>\<open>Receive\<close> call in \<^verbatim>\<open>runPhase1\<close> takes
  it from the transport.
\<close>

theorem routeMessage_leaves_Promise_undelivered:
  "proposer (routeMessage n (Val (PromiseMsg pr))) = proposer n
   \<and> acceptor (routeMessage n (Val (PromiseMsg pr))) = acceptor n
   \<and> learner (routeMessage n (Val (PromiseMsg pr))) = learner n
   \<and> transport (routeMessage n (Val (PromiseMsg pr))) = transport n
   \<and> proposer (routeMessage n (Ptr (PromiseMsg pr))) = proposer n
   \<and> acceptor (routeMessage n (Ptr (PromiseMsg pr))) = acceptor n
   \<and> learner (routeMessage n (Ptr (PromiseMsg pr))) = learner n
   \<and> transport (routeMessage n (Ptr (PromiseMsg pr))) = transport n
   \<and> (inbox (transport n) = Inr (Val (PromiseMsg pr)) # rest \<longrightarrow>
        proposer (handleMessagesStep n) = proposer n
        \<and> transport (handleMessagesStep n) = (transport n)\<lparr>inbox := rest\<rparr>)
   \<and> (0 < quorumSize p \<and> Equal (promProposalNumber pr) (currentProposal p) \<and> promOK pr
        \<and> inbox t = Inr (Val (PromiseMsg pr)) # rest \<longrightarrow>
        phase1_loop p 0 t = phase1_loop (p\<lparr>promise := promise p @ [pr]\<rparr>) 1 (t\<lparr>inbox := rest\<rparr>))"
  by (simp add: routeMessage_def handleMessagesStep_def phase1_loop_promise Receive_def)

theorem routeMessage_leaves_Promise_undelivered_witness:
  "inbox (transport ex_node) =
     [Inr (Val (PromiseMsg (ex_promise ex_round1 zeroProposal [] ''a2'')))]
   \<and> proposer (handleMessagesStep ex_node) = proposer ex_node
   \<and> transport (handleMessagesStep ex_node) = \<lparr>inbox = [], outbox = []\<rparr>
   \<and> 0 < quorumSize (proposer ex_node)
   \<and> Equal (promProposalNumber (ex_promise ex_round1 zeroProposal [] ''a2''))
        (currentProposal (proposer ex_node))
   \<and> promOK (ex_promise ex_round1 zeroProposal [] ''a2'')
   \<and> promise (fst (snd (phase1_loop (proposer ex_node) 0 (transport ex_node)))) =
       [ex_promise ex_round1 zeroProposal [] ''a2'']"
  using routeMessage_leaves_Promise_undelivered [of ex_node
      "ex_promise ex_round1 zeroProposal [] ''a2''" "[]" "proposer ex_node" "transport ex_node"]
  by (simp add: handleMessagesStep_def routeMessage_def ex_node_def run_defs ex_carry_defs
        phase1_loop.simps)

text \<open>
  Dispatch invariant N1 of the spec: an Accept that this node's acceptor grants is fed to
  this node's learner, after the Accepted has been sent back to the proposer.
\<close>

theorem routeMessage_feeds_local_learner:
  "learner (routeMessage n (Val (AcceptMsg m))) =
     (if GreaterOrEqual (accProposalNumber m) (highestPromised (acceptor n))
      then learner n @ [HandleAccepted \<lparr>acdProposalNumber = accProposalNumber m, acdValue = accValue m,
                                         acdFrom = idA (acceptor n), acdOK = True\<rparr>]
      else learner n)
   \<and> outbox (transport (routeMessage n (Val (AcceptMsg m)))) =
       outbox (transport n) @ [Sent (accFrom m) (Val (AcceptedMsg (fst (HandleAccept (acceptor n) m))))]
   \<and> routeMessage n (Ptr (AcceptMsg m)) = routeMessage n (Val (AcceptMsg m))"
  by (simp add: routeMessage_def routeAccept_def HandleAccept_def Send_def Let_def split_def
        GreaterOrEqual_def)

subsection \<open>Acceptor\<close>

lemma callSavePromised_memoryStorage:
  "callSavePromised (memoryStorage ms h) pn = (None, memoryStorage (SavePromised ms pn) h)"
  by (simp add: callSavePromised_def memoryStorage_def)

lemma callLoadPromised_memoryStorage:
  "callLoadPromised (memoryStorage ms h) = (msHighestPromised ms, None, memoryStorage ms h)"
  by (simp add: callLoadPromised_def memoryStorage_def LoadPromised_def)

text \<open>
  After \<^verbatim>\<open>SaveAccepted\<close> on the in-memory storage, \<^verbatim>\<open>LoadPromised\<close> and \<^verbatim>\<open>LoadAccepted\<close> return the
  promise it held and the proposal and the bytes that were saved.
\<close>

lemma callSaveAccepted_memoryStorage:
  "\<exists>ms' h'. callSaveAccepted (memoryStorage ms h) pn v = (None, memoryStorage ms' h')
      \<and> msHighestPromised ms' = msHighestPromised ms
      \<and> fst (callLoadAccepted (memoryStorage ms' h')) = pn
      \<and> fst (snd (callLoadAccepted (memoryStorage ms' h'))) = v
      \<and> fst (snd (snd (callLoadAccepted (memoryStorage ms' h')))) = None
      \<and> (\<exists>ms'' h''. snd (snd (snd (callLoadAccepted (memoryStorage ms' h')))) = memoryStorage ms'' h''
            \<and> msHighestPromised ms'' = msHighestPromised ms)"
  by (simp add: callSaveAccepted_def callLoadAccepted_def memoryStorage_def callerSlice_def
        SaveAccepted_def LoadAccepted_def makeBytes_def copyBytes_def lenBytes_def contents_def
        Let_def nth_append)


text \<open>
  What the two handlers do, on any storage. \<^verbatim>\<open>HandlePrepare\<close> answers \<^verbatim>\<open>OK\<close> exactly when the
  incoming proposal is strictly greater than \<^verbatim>\<open>highestPromised\<close>; it then sets
  \<^verbatim>\<open>highestPromised\<close>, calls \<^verbatim>\<open>SavePromised\<close> with it, and reports what was accepted before,
  whatever the call returns; otherwise it changes nothing and reports \<^verbatim>\<open>highestPromised\<close>.
  \<^verbatim>\<open>HandleAccept\<close> answers \<^verbatim>\<open>OK\<close> exactly when the incoming proposal is greater than or equal to
  \<^verbatim>\<open>highestPromised\<close>; it then sets \<^verbatim>\<open>highestPromised\<close>, \<^verbatim>\<open>acceptedProposal\<close> and
  \<^verbatim>\<open>acceptedValue\<close> and calls \<^verbatim>\<open>SavePromised\<close> and \<^verbatim>\<open>SaveAccepted\<close>, whatever they return;
  otherwise it changes nothing. So an Accept bearing exactly the promised identifier is
  accepted, while a Prepare bearing it is rejected, and the Accept for a proposal whose
  Prepare was just granted is accepted. On the in-memory storage, whose writes succeed, an
  acceptor started afterwards on the same storage holds what was granted.
\<close>

theorem acceptor_comparators:
  fixes a :: "'s Acceptor" and b :: "(MemoryStorage \<times> heap) Acceptor"
  shows
  "promOK (fst (HandlePrepare a m)) = GreaterThan (prepProposalNumber m) (highestPromised a)
   \<and> (if GreaterThan (prepProposalNumber m) (highestPromised a)
       then HandlePrepare a m =
              (\<lparr>promProposalNumber = prepProposalNumber m,
                promAcceptedProposal = acceptedProposal a, promAcceptedValue = acceptedValue a,
                promFrom = idA a, promOK = True\<rparr>,
               a\<lparr>highestPromised := prepProposalNumber m,
                 storage := snd (callSavePromised (storage a)
                                   (toStorageProposal (prepProposalNumber m)))\<rparr>)
       else HandlePrepare a m =
              (\<lparr>promProposalNumber = prepProposalNumber m,
                promAcceptedProposal = highestPromised a, promAcceptedValue = [],
                promFrom = idA a, promOK = False\<rparr>, a))
   \<and> acdOK (fst (HandleAccept a c)) = GreaterOrEqual (accProposalNumber c) (highestPromised a)
   \<and> (if GreaterOrEqual (accProposalNumber c) (highestPromised a)
       then HandleAccept a c =
              (\<lparr>acdProposalNumber = accProposalNumber c, acdValue = accValue c,
                acdFrom = idA a, acdOK = True\<rparr>,
               a\<lparr>highestPromised := accProposalNumber c, acceptedProposal := accProposalNumber c,
                 acceptedValue := accValue c,
                 storage := snd (callSaveAccepted
                                   (snd (callSavePromised (storage a)
                                           (toStorageProposal (accProposalNumber c))))
                                   (toStorageProposal (accProposalNumber c)) (accValue c))\<rparr>)
       else HandleAccept a c =
              (\<lparr>acdProposalNumber = accProposalNumber c, acdValue = [],
                acdFrom = idA a, acdOK = False\<rparr>, a))
   \<and> (Equal (accProposalNumber c) (highestPromised a) \<longrightarrow> acdOK (fst (HandleAccept a c)))
   \<and> (Equal (prepProposalNumber m) (highestPromised a) \<longrightarrow> \<not> promOK (fst (HandlePrepare a m)))
   \<and> (promOK (fst (HandlePrepare a m)) \<and> accProposalNumber c = prepProposalNumber m
        \<longrightarrow> acdOK (fst (HandleAccept (snd (HandlePrepare a m)) c)))
   \<and> (storage b = memoryStorage ms h
        \<and> GreaterThan (prepProposalNumber m) (highestPromised b) \<longrightarrow>
      highestPromised (NewAcceptor i (storage (snd (HandlePrepare b m)))) = prepProposalNumber m)
   \<and> (storage b = memoryStorage ms h
        \<and> GreaterOrEqual (accProposalNumber c) (highestPromised b) \<longrightarrow>
      GetState (NewAcceptor i (storage (snd (HandleAccept b c)))) =
        (accProposalNumber c, accProposalNumber c, accValue c))"
proof -
  have tsp: "toStorageProposal x = x" for x
    by (simp add: toStorageProposal_def)
  have handlers:
    "promOK (fst (HandlePrepare a m)) = GreaterThan (prepProposalNumber m) (highestPromised a)
   \<and> (if GreaterThan (prepProposalNumber m) (highestPromised a)
       then HandlePrepare a m =
              (\<lparr>promProposalNumber = prepProposalNumber m,
                promAcceptedProposal = acceptedProposal a, promAcceptedValue = acceptedValue a,
                promFrom = idA a, promOK = True\<rparr>,
               a\<lparr>highestPromised := prepProposalNumber m,
                 storage := snd (callSavePromised (storage a)
                                   (toStorageProposal (prepProposalNumber m)))\<rparr>)
       else HandlePrepare a m =
              (\<lparr>promProposalNumber = prepProposalNumber m,
                promAcceptedProposal = highestPromised a, promAcceptedValue = [],
                promFrom = idA a, promOK = False\<rparr>, a))
   \<and> acdOK (fst (HandleAccept a c)) = GreaterOrEqual (accProposalNumber c) (highestPromised a)
   \<and> (if GreaterOrEqual (accProposalNumber c) (highestPromised a)
       then HandleAccept a c =
              (\<lparr>acdProposalNumber = accProposalNumber c, acdValue = accValue c,
                acdFrom = idA a, acdOK = True\<rparr>,
               a\<lparr>highestPromised := accProposalNumber c, acceptedProposal := accProposalNumber c,
                 acceptedValue := accValue c,
                 storage := snd (callSaveAccepted
                                   (snd (callSavePromised (storage a)
                                           (toStorageProposal (accProposalNumber c))))
                                   (toStorageProposal (accProposalNumber c)) (accValue c))\<rparr>)
       else HandleAccept a c =
              (\<lparr>acdProposalNumber = accProposalNumber c, acdValue = [],
                acdFrom = idA a, acdOK = False\<rparr>, a))"
    by (simp add: HandlePrepare_def HandleAccept_def GreaterOrEqual_def Let_def split_def)
  have eqs: "(Equal (accProposalNumber c) (highestPromised a) \<longrightarrow> acdOK (fst (HandleAccept a c)))
   \<and> (Equal (prepProposalNumber m) (highestPromised a) \<longrightarrow> \<not> promOK (fst (HandlePrepare a m)))
   \<and> (promOK (fst (HandlePrepare a m)) \<and> accProposalNumber c = prepProposalNumber m
        \<longrightarrow> acdOK (fst (HandleAccept (snd (HandlePrepare a m)) c)))"
    by (auto simp: HandlePrepare_def HandleAccept_def GreaterOrEqual_def Let_def split_def
          Equal_def GreaterThan_def)
  have prep: "highestPromised (NewAcceptor i (storage (snd (HandlePrepare b m)))) = prepProposalNumber m"
    if "storage b = memoryStorage ms h" "GreaterThan (prepProposalNumber m) (highestPromised b)"
    using that
    by (simp add: HandlePrepare_def Let_def split_def tsp callSavePromised_memoryStorage
          NewAcceptor_def callLoadPromised_memoryStorage SavePromised_def)
  have acc: "GetState (NewAcceptor i (storage (snd (HandleAccept b c)))) =
        (accProposalNumber c, accProposalNumber c, accValue c)"
    if st: "storage b = memoryStorage ms h"
      and ge: "GreaterOrEqual (accProposalNumber c) (highestPromised b)"
  proof -
    let ?pn = "accProposalNumber c"
    from callSaveAccepted_memoryStorage [of "SavePromised ms ?pn" h ?pn "accValue c"]
    obtain ms' h' where
      S: "callSaveAccepted (memoryStorage (SavePromised ms ?pn) h) ?pn (accValue c) =
            (None, memoryStorage ms' h')"
      and P: "msHighestPromised ms' = ?pn"
      and L: "fst (callLoadAccepted (memoryStorage ms' h')) = ?pn"
        "fst (snd (callLoadAccepted (memoryStorage ms' h'))) = accValue c"
        "fst (snd (snd (callLoadAccepted (memoryStorage ms' h')))) = None"
      by (auto simp: SavePromised_def)
    have st': "storage (snd (HandleAccept b c)) = memoryStorage ms' h'"
      using st ge S
      by (simp add: HandleAccept_def GreaterOrEqual_def Let_def split_def tsp
            callSavePromised_memoryStorage)
    obtain x v e s2 where C: "callLoadAccepted (memoryStorage ms' h') = (x, v, e, s2)"
      by (cases "callLoadAccepted (memoryStorage ms' h')")
    with L have "x = ?pn" "v = accValue c" "e = None" by simp_all
    with C P show ?thesis
      by (simp add: st' NewAcceptor_def Let_def callLoadPromised_memoryStorage GetState_def)
  qed
  from handlers eqs prep acc show ?thesis by blast
qed

text \<open>
  Acceptor \<open>a2\<close> has promised \<open>(7, n2)\<close>: it rejects a Prepare for \<open>(7, n2)\<close> and accepts an
  Accept for \<open>(7, n2)\<close>; it grants a Prepare for \<open>(8, n0)\<close> and then accepts the Accept for
  \<open>(8, n0)\<close>; restarted on its storage after that, it holds \<open>(8, n0)\<close> and the value.
\<close>

theorem acceptor_comparators_witness:
  "Equal (prepProposalNumber ex_prepare) (highestPromised ex_acceptor)
   \<and> \<not> promOK (fst (HandlePrepare ex_acceptor ex_prepare))
   \<and> Equal (accProposalNumber (ex_accept_of \<lparr>Round = 7, ProposerID = ''n2''\<rparr> [66]))
        (highestPromised ex_acceptor)
   \<and> acdOK (fst (HandleAccept ex_acceptor (ex_accept_of \<lparr>Round = 7, ProposerID = ''n2''\<rparr> [66])))
   \<and> promOK (fst (HandlePrepare ex_acceptor (ex_prepare_of \<lparr>Round = 8, ProposerID = ''n0''\<rparr>)))
   \<and> acdOK (fst (HandleAccept
        (snd (HandlePrepare ex_acceptor (ex_prepare_of \<lparr>Round = 8, ProposerID = ''n0''\<rparr>)))
        (ex_accept_of \<lparr>Round = 8, ProposerID = ''n0''\<rparr> [66])))
   \<and> storage ex_acceptor =
       memoryStorage (SavePromised NewMemoryStorage \<lparr>Round = 7, ProposerID = ''n2''\<rparr>) [[]]
   \<and> highestPromised (NewAcceptor ''a2''
        (storage (snd (HandlePrepare ex_acceptor (ex_prepare_of \<lparr>Round = 8, ProposerID = ''n0''\<rparr>))))) =
       \<lparr>Round = 8, ProposerID = ''n0''\<rparr>
   \<and> GetState (NewAcceptor ''a2''
        (storage (snd (HandleAccept ex_acceptor (ex_accept_of \<lparr>Round = 8, ProposerID = ''n0''\<rparr> [66]))))) =
       (\<lparr>Round = 8, ProposerID = ''n0''\<rparr>, \<lparr>Round = 8, ProposerID = ''n0''\<rparr>, [66])"
  using acceptor_comparators [where a = ex_acceptor and b = ex_acceptor and m = ex_prepare
          and c = "ex_accept_of \<lparr>Round = 7, ProposerID = ''n2''\<rparr> [66]"
          and ms = "SavePromised NewMemoryStorage \<lparr>Round = 7, ProposerID = ''n2''\<rparr>" and h = "[[]]"
          and i = "''a2''"]
        acceptor_comparators [where a = ex_acceptor and b = ex_acceptor
          and m = "ex_prepare_of \<lparr>Round = 8, ProposerID = ''n0''\<rparr>"
          and c = "ex_accept_of \<lparr>Round = 8, ProposerID = ''n0''\<rparr> [66]"
          and ms = "SavePromised NewMemoryStorage \<lparr>Round = 7, ProposerID = ''n2''\<rparr>" and h = "[[]]"
          and i = "''a2''"]
  by (simp add: ex_acceptor_def ex_prepare_def ex_prepare_of_def ex_accept_of_def GetState_def
        acceptor_defs run_defs)

end
